theory Spec2Isabelle
  imports Main "HOL-Library.Sublist"
begin

section \<open>Python string operations used by the scraper\<close>

text \<open>
  Python's \<open>sep in s\<close> on strings: \<open>sep\<close> occurs in \<open>s\<close> as a contiguous run of
  characters.
\<close>

fun contains :: "string \<Rightarrow> string \<Rightarrow> bool" where
  "contains sep [] = (sep = [])"
| "contains sep (c # cs) = (prefix sep (c # cs) \<or> contains sep cs)"

text \<open>
  Python's \<open>s.split(sep)\<close> for a non-empty separator: the string is scanned from the left,
  every occurrence found ends the current piece and the scan goes on behind it, so the
  occurrences are the leftmost non-overlapping ones. The result always has at least one
  piece. (Python raises \<open>ValueError\<close> for an empty separator; the scraper only ever
  splits at the three non-empty constants below.)
\<close>

function py_split :: "string \<Rightarrow> string \<Rightarrow> string list" where
  "py_split sep [] = [[]]"
| "py_split sep (c # cs) =
     (if sep \<noteq> [] \<and> prefix sep (c # cs)
      then [] # py_split sep (drop (length sep) (c # cs))
      else (case py_split sep cs of
              [] \<Rightarrow> [[c]]
            | p # ps \<Rightarrow> (c # p) # ps))"
  by pat_completeness auto
termination
  by (relation "measure (\<lambda>(sep, s). length s)") auto

section \<open>Identity normalisation\<close>

definition view_marker :: string where
  "view_marker = ''linkedin.com/jobs/view/''"

definition view_prefix :: string where
  "view_prefix = ''https://www.linkedin.com/jobs/view/''"

text \<open>
  \<open>normalize_linkedin_job_url\<close> (lines 51-68): a link that contains the marker is rebuilt
  from the job id, which is the text behind the first marker up to the next marker, cut at
  the first \<open>/\<close> and then at the first \<open>?\<close>; any other string is returned as it is.
\<close>

definition normalize_linkedin_job_url :: "string \<Rightarrow> string" where
  "normalize_linkedin_job_url url =
     (if contains view_marker url then
        (let parts = py_split view_marker url in
         if length parts > 1 then
           (let job_id_and_rest = parts ! 1;
                job_id = py_split ''?'' (py_split ''/'' job_id_and_rest ! 0) ! 0
            in view_prefix @ job_id @ ''/'')
         else url)
      else url)"

section \<open>The page as the scraper sees it\<close>

text \<open>
  What \<open>dateutil.parser.parse\<close> makes of the text of the \<open>time\<close> element (line 182): a
  date, a \<open>ValueError\<close> (caught at line 184, the text is kept), or another exception such
  as its documented \<open>OverflowError\<close>, which nothing in \<open>extract_and_save_jobs\<close> catches.
\<close>

datatype date_parse = Parsed string | NotADate | ParserFault

text \<open>
  One \<open>div.job-search-card\<close> of the results list, reduced to what lines 160-191 read from
  it: the text of each element when the element is there, the \<open>href\<close> of the full link
  when the link element is there and carries one, for the \<open>time\<close> element its text
  together with the outcome of parsing it, and whether \<open>writerow\<close> raises on the card's
  row (text that cannot be encoded).
\<close>

record job_card =
  card_title :: "string option"
  card_company :: "string option"
  card_location :: "string option"
  card_href :: "string option"
  card_listdate :: "(string \<times> date_parse) option"
  card_unwritable :: bool

text \<open>
  What one call of \<open>extract_and_save_jobs\<close> finds in the browser: reading the page
  raised \<open>WebDriverException\<close> (line 137), the results list is not in the page (line 146),
  or the list with its cards in document order. The screenshot and the debug file of the
  two error paths are taken to succeed.
\<close>

datatype page_view = HtmlError | NoContainer | JobList "job_card list"

text \<open>
  What one turn of the main loop meets: an exception that leaves the loop before anything
  is extracted (the scroll of line 328 raising), or the outcome of the attempt to click
  "See more jobs" (\<open>clicked_see_more\<close>) and the page the extraction then reads.
\<close>

datatype step_input = Crash | Observed bool page_view

text \<open>The \<open>scroll_id\<close> argument: a number, or the string \<open>resume_check\<close> (line 314).\<close>

datatype scroll_id = Scroll int | ResumeCheck

section \<open>The two files\<close>

text \<open>
  The CSV file as \<open>csv.reader\<close> delivers it: the rows in order, and possibly a point at
  which reading raises (an undecodable byte, a malformed line, a file that cannot be
  opened for reading). A file of size zero delivers nothing.
\<close>

datatype read_event = Row "string list" | ReadFailure

datatype csv_file = Absent | Present "read_event list"

text \<open>
  The progress file as \<open>load_progress\<close> tells its states apart (lines 38-46): missing,
  unreadable (\<open>IOError\<close>), blank after \<open>strip\<close>, text that \<open>int\<close> accepts, or text it
  rejects (\<open>ValueError\<close>).
\<close>

datatype progress_file =
  NoProgressFile | ProgressUnreadable | ProgressBlank | ProgressInt int | ProgressGarbage

datatype load_error = StoreUnreadable

definition headers :: "string list" where
  "headers = [''Title'', ''Company'', ''Location'', ''Link'', ''Post Time'']"

text \<open>\<open>header.index("Link")\<close>: the first position, \<open>None\<close> for Python's \<open>ValueError\<close>.\<close>

fun index_of :: "'a \<Rightarrow> 'a list \<Rightarrow> nat option" where
  "index_of x [] = None"
| "index_of x (y # ys) =
     (if x = y then Some 0 else (case index_of x ys of None \<Rightarrow> None | Some i \<Rightarrow> Some (Suc i)))"

text \<open>
  The loop of lines 86-90. An exception raised by the reader ends it, and the handler of
  line 91 lets the function return the links collected so far.
\<close>

fun read_links :: "nat \<Rightarrow> read_event list \<Rightarrow> string set \<Rightarrow> string set" where
  "read_links link_index [] existing = existing"
| "read_links link_index (ReadFailure # evs) existing = existing"
| "read_links link_index (Row r # evs) existing =
     read_links link_index evs
       (if length r > link_index
        then insert (normalize_linkedin_job_url (r ! link_index)) existing
        else existing)"

text \<open>
  \<open>get_existing_job_links\<close> (lines 71-93). The result type has room for a failure; every
  path of the source returns a set, because \<open>except Exception\<close> only logs a warning.
\<close>

definition get_existing_job_links :: "csv_file \<Rightarrow> load_error + string set" where
  "get_existing_job_links f =
     (case f of
        Absent \<Rightarrow> Inr {}
      | Present [] \<Rightarrow> Inr {}
      | Present (ReadFailure # evs) \<Rightarrow> Inr {}
      | Present (Row header # evs) \<Rightarrow>
          (if header = [] then Inr {}
           else (case index_of ''Link'' header of
                   None \<Rightarrow> Inr {}
                 | Some link_index \<Rightarrow> Inr (read_links link_index evs {}))))"

definition load_progress :: "progress_file \<Rightarrow> int" where
  "load_progress pf = (case pf of ProgressInt k \<Rightarrow> k | _ \<Rightarrow> 0)"

section \<open>Effects of a run\<close>

text \<open>
  What a run does to the outside, in the order it does it: the header row handed to the
  CSV writer for an empty file (line 259), the rows one call of \<open>extract_and_save_jobs\<close>
  handed to the writer (with the \<open>scroll_id\<close> of the call; for a call that an exception
  ended, the rows handed over before it), a value written to the progress file by
  \<open>save_progress\<close>, and the start of a turn of the main loop (line 325).
\<close>

datatype event =
  HeaderWritten
| Extracted scroll_id "string list list"
| ProgressSaved int
| ScrollAttempt int

record run_state =
  existing_links :: "string set"
  events :: "event list"
  scraped_job_count :: nat
  last_total_jobs_on_page :: nat
  no_new_jobs_consecutive_scrolls :: nat

datatype stop_reason =
  DriverInitFailed | SetupFailed | Crashed | StallLimit | AttemptsExhausted

definition save_progress :: "int \<Rightarrow> run_state \<Rightarrow> run_state" where
  "save_progress current_scrolled_pages st =
     st\<lparr>events := events st @ [ProgressSaved current_scrolled_pages]\<rparr>"

section \<open>Extraction and persistence\<close>

definition job_link :: "job_card \<Rightarrow> string" where
  "job_link c = (case card_href c of None \<Rightarrow> ''N/A'' | Some h \<Rightarrow> h)"

text \<open>Whether parsing the card's date raises an exception that line 184 does not catch.\<close>

definition date_raises :: "job_card \<Rightarrow> bool" where
  "date_raises c =
     (case card_listdate c of Some (post_time_text, ParserFault) \<Rightarrow> True | _ \<Rightarrow> False)"

text \<open>The \<open>post_time\<close> of a card whose date parsing does not raise.\<close>

definition post_time :: "job_card \<Rightarrow> string" where
  "post_time c =
     (case card_listdate c of
        None \<Rightarrow> ''N/A''
      | Some (post_time_text, Parsed parsed_time) \<Rightarrow> parsed_time
      | Some (post_time_text, other) \<Rightarrow> post_time_text)"

definition text_or_na :: "string option \<Rightarrow> string" where
  "text_or_na t = (case t of None \<Rightarrow> ''N/A'' | Some s \<Rightarrow> s)"

definition csv_row :: "job_card \<Rightarrow> string list" where
  "csv_row c =
     [text_or_na (card_title c), text_or_na (card_company c), text_or_na (card_location c),
      normalize_linkedin_job_url (job_link c), post_time c]"

text \<open>
  The loop over the cards (lines 159-199): the rows handed to the writer, the set
  \<open>existing_links\<close> as the loop leaves it, the counter, and whether an exception ended the
  loop. The date is parsed before the link is looked at (line 182), the row is written
  before its key is added (lines 191-192).
\<close>

fun save_new_jobs ::
  "job_card list \<Rightarrow> string set \<Rightarrow> nat \<Rightarrow> string list list \<times> string set \<times> nat \<times> bool" where
  "save_new_jobs [] existing counter = ([], existing, counter, False)"
| "save_new_jobs (c # cs) existing counter =
     (if date_raises c then ([], existing, counter, True)
      else
        (let normalized_job_link = normalize_linkedin_job_url (job_link c) in
         if normalized_job_link \<noteq> [] \<and> normalized_job_link \<notin> existing then
           (if card_unwritable c then ([], existing, counter, True)
            else
              (case save_new_jobs cs (insert normalized_job_link existing) (counter + 1) of
                 (rows, existing', counter', raised) \<Rightarrow>
                   (csv_row c # rows, existing', counter', raised)))
         else save_new_jobs cs existing counter))"

text \<open>
  \<open>extract_and_save_jobs\<close> (lines 127-201): the rows handed to the writer, \<open>existing_links\<close>
  afterwards, and the returned pair of counter and number of cards found, or \<open>None\<close>
  when an exception left the function.
\<close>

definition extract_and_save_jobs ::
  "page_view \<Rightarrow> string set \<Rightarrow> nat \<Rightarrow> string list list \<times> string set \<times> (nat \<times> nat) option" where
  "extract_and_save_jobs view existing scraped_job_counter =
     (case view of
        HtmlError \<Rightarrow> ([], existing, Some (scraped_job_counter, 0))
      | NoContainer \<Rightarrow> ([], existing, Some (scraped_job_counter, 0))
      | JobList job_cards \<Rightarrow>
          (case save_new_jobs job_cards existing scraped_job_counter of
             (rows, existing', counter', raised) \<Rightarrow>
               (rows, existing',
                if raised then None else Some (counter', length job_cards))))"

section \<open>The main loop\<close>

definition MAX_NO_NEW_JOBS_CONSECUTIVE_SCROLLS :: nat where
  "MAX_NO_NEW_JOBS_CONSECUTIVE_SCROLLS = 5"

text \<open>
  The body of the loop from the extraction on (lines 352-375), for turn \<open>n\<close>: the state
  it leaves, and how the loop is left if it is: by the \<open>break\<close> of line 370, or by an
  exception out of the extraction, which leaves \<open>scraped_job_count\<close> as it was before the
  call.
\<close>

definition scroll_body ::
  "int \<Rightarrow> bool \<Rightarrow> page_view \<Rightarrow> run_state \<Rightarrow> run_state \<times> stop_reason option" where
  "scroll_body n clicked_see_more view st =
     (case extract_and_save_jobs view (existing_links st) (scraped_job_count st) of
        (rows, existing', None) \<Rightarrow>
          (st\<lparr>existing_links := existing',
              events := events st @ [Extracted (Scroll n) rows]\<rparr>, Some Crashed)
      | (rows, existing', Some (counter', new_total_jobs_on_page)) \<Rightarrow>
          (let prev_scraped_count = scraped_job_count st;
               st1 = st\<lparr>existing_links := existing', scraped_job_count := counter',
                        events := events st @ [Extracted (Scroll n) rows]\<rparr>;
               content_increased = (new_total_jobs_on_page > last_total_jobs_on_page st);
               jobs_added_to_csv = (counter' > prev_scraped_count)
           in if content_increased \<or> jobs_added_to_csv \<or> clicked_see_more then
                (save_progress n
                   (st1\<lparr>no_new_jobs_consecutive_scrolls := 0,
                        last_total_jobs_on_page := new_total_jobs_on_page\<rparr>), None)
              else
                (let st2 = st1\<lparr>no_new_jobs_consecutive_scrolls :=
                                  no_new_jobs_consecutive_scrolls st1 + 1\<rparr>
                 in if no_new_jobs_consecutive_scrolls st2 \<ge> MAX_NO_NEW_JOBS_CONSECUTIVE_SCROLLS
                    then (st2, Some StallLimit)
                    else (save_progress n
                            (st2\<lparr>last_total_jobs_on_page := new_total_jobs_on_page\<rparr>), None))))"

text \<open>
  The \<open>for\<close> loop of line 324 over the turns still to run. An exception leaves it through
  the handlers of lines 381-395.
\<close>

fun scroll_loop :: "(int \<Rightarrow> step_input) \<Rightarrow> int list \<Rightarrow> run_state \<Rightarrow> run_state \<times> stop_reason" where
  "scroll_loop src [] st = (st, AttemptsExhausted)"
| "scroll_loop src (n # ns) st =
     (let st1 = st\<lparr>events := events st @ [ScrollAttempt n]\<rparr> in
      case src n of
        Crash \<Rightarrow> (st1, Crashed)
      | Observed clicked_see_more view \<Rightarrow>
          (case scroll_body n clicked_see_more view st1 of
             (st2, Some why) \<Rightarrow> (st2, why)
           | (st2, None) \<Rightarrow> scroll_loop src ns st2))"

section \<open>A whole run\<close>

text \<open>
  Everything outside the program that a run depends on: whether the browser starts
  (line 228), the two files as they are at the start, whether opening the CSV file,
  navigating and waiting for the search bar go through without an exception
  (lines 255-302), the page at the first extraction, and what each turn of the loop meets.
\<close>

record environment =
  driver_starts :: bool
  csv_store :: csv_file
  progress_store :: progress_file
  page_ready :: bool
  first_view :: page_view
  scroll_view :: "int \<Rightarrow> step_input"

definition csv_is_empty :: "csv_file \<Rightarrow> bool" where
  "csv_is_empty f = (case f of Absent \<Rightarrow> True | Present evs \<Rightarrow> evs = [])"

definition seen_at_start :: "csv_file \<Rightarrow> string set" where
  "seen_at_start f = (case get_existing_job_links f of Inl e \<Rightarrow> {} | Inr links \<Rightarrow> links)"

text \<open>
  Lines 304-315: the extraction before the loop, in a fresh start (\<open>scroll_id\<close> 0, then
  \<open>save_progress(1)\<close>) or in resume mode (\<open>scroll_id\<close> \<open>resume_check\<close>, the counter set
  to the number of links loaded and the counter returned by the call dropped). The flag
  says whether the call returned; after an exception the counter is what it was before
  the call.
\<close>

definition before_loop :: "environment \<Rightarrow> run_state \<Rightarrow> run_state \<times> bool" where
  "before_loop env st0 =
     (if load_progress (progress_store env) + 1 = 1 then
        (case extract_and_save_jobs (first_view env) (existing_links st0) 0 of
           (rows, existing', None) \<Rightarrow>
             (st0\<lparr>existing_links := existing',
                  events := events st0 @ [Extracted (Scroll 0) rows]\<rparr>, False)
         | (rows, existing', Some (counter', cards_found)) \<Rightarrow>
             (save_progress 1
                (st0\<lparr>existing_links := existing', scraped_job_count := counter',
                     last_total_jobs_on_page := cards_found,
                     events := events st0 @ [Extracted (Scroll 0) rows]\<rparr>), True))
      else
        (case extract_and_save_jobs (first_view env) (existing_links st0)
                (card (existing_links st0)) of
           (rows, existing', None) \<Rightarrow>
             (st0\<lparr>existing_links := existing', scraped_job_count := card (existing_links st0),
                  events := events st0 @ [Extracted ResumeCheck rows]\<rparr>, False)
         | (rows, existing', Some (counter', cards_found)) \<Rightarrow>
             (st0\<lparr>existing_links := existing', scraped_job_count := card (existing_links st0),
                  last_total_jobs_on_page := cards_found,
                  events := events st0 @ [Extracted ResumeCheck rows]\<rparr>, True)))"

text \<open>
  \<open>scrape_linkedin_jobs\<close> (lines 206-405): the value returned, the state the run ends in,
  and why it ended. An exception escaping \<open>get_existing_job_links\<close> would escape the
  function too (line 237 is outside the \<open>try\<close>); no path raises one.
\<close>

definition scrape_linkedin_jobs :: "environment \<Rightarrow> int \<Rightarrow> nat \<times> run_state \<times> stop_reason" where
  "scrape_linkedin_jobs env max_scroll_attempts =
     (let idle = \<lparr>existing_links = {}, events = [], scraped_job_count = 0,
                  last_total_jobs_on_page = 0, no_new_jobs_consecutive_scrolls = 0\<rparr>
      in if \<not> driver_starts env then (0, idle, DriverInitFailed)
      else
        (case get_existing_job_links (csv_store env) of
           Inl e \<Rightarrow> (0, idle, SetupFailed)
         | Inr existing \<Rightarrow>
            (let completed_scrolls = load_progress (progress_store env);
                 start_scroll_attempt = completed_scrolls + 1;
                 st0 = idle\<lparr>existing_links := existing,
                           events := (if csv_is_empty (csv_store env) then [HeaderWritten] else [])\<rparr>
             in if \<not> page_ready env then (0, st0, SetupFailed)
             else
               (case before_loop env st0 of
                  (st1, False) \<Rightarrow> (scraped_job_count st1, st1, Crashed)
                | (st1, True) \<Rightarrow>
                    (case scroll_loop (scroll_view env)
                            [start_scroll_attempt..max_scroll_attempts] st1 of
                       (st2, why) \<Rightarrow> (scraped_job_count st2, st2, why))))))"

section \<open>Reading a run's effects\<close>

definition link_of :: "string list \<Rightarrow> string" where
  "link_of r = r ! 3"

fun rows_written :: "event list \<Rightarrow> string list list" where
  "rows_written [] = []"
| "rows_written (Extracted sid rows # es) = rows @ rows_written es"
| "rows_written (e # es) = rows_written es"

fun scroll_attempts :: "event list \<Rightarrow> int list" where
  "scroll_attempts [] = []"
| "scroll_attempts (ScrollAttempt n # es) = n # scroll_attempts es"
| "scroll_attempts (e # es) = scroll_attempts es"

text \<open>The value the progress file holds after the events, \<open>None\<close> when none was saved.\<close>

fun saved_progress :: "event list \<Rightarrow> int option" where
  "saved_progress [] = None"
| "saved_progress (e # es) =
     (case saved_progress es of
        Some k \<Rightarrow> Some k
      | None \<Rightarrow> (case e of ProgressSaved k \<Rightarrow> Some k | _ \<Rightarrow> None))"

text \<open>The number of cards a call reports when it returns (lines 141, 151, 155).\<close>

definition view_count :: "page_view \<Rightarrow> nat" where
  "view_count view = (case view of JobList job_cards \<Rightarrow> length job_cards | _ \<Rightarrow> 0)"

text \<open>
  A page on which a call made with the seen links \<open>seen\<close> returns without having
  written a row.
\<close>

definition quiet_view :: "page_view \<Rightarrow> string set \<Rightarrow> bool" where
  "quiet_view view seen =
     (extract_and_save_jobs view seen 0 = ([], seen, Some (0, view_count view)))"

text \<open>
  Turns on which nothing moves: none is left by an exception, on none the button is
  clicked, on each the call made with the seen links \<open>seen\<close> returns without having
  written a row, and no turn shows more cards than the step before it, the first no more
  than \<open>previous\<close>.
\<close>

fun quiet_turns :: "(int \<Rightarrow> step_input) \<Rightarrow> int list \<Rightarrow> string set \<Rightarrow> nat \<Rightarrow> bool" where
  "quiet_turns src [] seen previous = True"
| "quiet_turns src (n # ns) seen previous =
     (case src n of
        Crash \<Rightarrow> False
      | Observed clicked_see_more view \<Rightarrow>
          \<not> clicked_see_more \<and> quiet_view view seen \<and> view_count view \<le> previous \<and>
          quiet_turns src ns seen (view_count view))"

section \<open>What has reached the CSV file\<close>

text \<open>
  The CSV file is opened once with Python's default buffering (line 255) and nothing
  flushes it before \<open>close\<close> (line 402), while \<open>save_progress\<close> opens, writes and closes
  the progress file on every call (lines 30-31). Text handed to the writer stays in the
  text layer of the handle until 8192 bytes are pending; below that, nothing of it is in
  the file. A row takes at most four bytes for each character, two quotes and a
  separator for each field, and the line end.
\<close>

definition row_bytes_bound :: "string list \<Rightarrow> nat" where
  "row_bytes_bound r = sum_list (map (\<lambda>field. 4 * length field + 3) r) + 2"

fun bytes_bound :: "event list \<Rightarrow> nat" where
  "bytes_bound [] = 0"
| "bytes_bound (HeaderWritten # es) = row_bytes_bound headers + bytes_bound es"
| "bytes_bound (Extracted sid rows # es) =
     sum_list (map row_bytes_bound rows) + bytes_bound es"
| "bytes_bound (e # es) = bytes_bound es"

text \<open>
  The rows of this run that are in the file once the events have happened and the handle
  is still open: none while less than a buffer was written, not determined here
  (\<open>None\<close>) beyond that.
\<close>

definition rows_in_file :: "event list \<Rightarrow> string list list option" where
  "rows_in_file es = (if bytes_bound es < 8192 then Some [] else None)"

section \<open>Properties of a run's effects\<close>

text \<open>
  Every value saved to the progress file stands right behind the batch of rows it marks
  as done: the batch of turn \<open>n\<close> for the value \<open>n\<close>, or the batch of the first
  extraction (\<open>scroll_id\<close> 0) for the value 1.
\<close>

fun saves_follow_batches :: "event list \<Rightarrow> bool" where
  "saves_follow_batches [] = True"
| "saves_follow_batches (Extracted sid rows # ProgressSaved n # es) =
     ((sid = Scroll n \<or> (sid = Scroll 0 \<and> n = 1)) \<and> saves_follow_batches es)"
| "saves_follow_batches (ProgressSaved n # es) = False"
| "saves_follow_batches (e # es) = saves_follow_batches es"

text \<open>
  Every row written carries five fields and a link that is not empty and is its own
  normal form.
\<close>

definition well_kept :: "run_state \<Rightarrow> bool" where
  "well_kept st =
     list_all (\<lambda>r. normalize_linkedin_job_url (link_of r) = link_of r \<and> length r = 5 \<and>
                  link_of r \<noteq> [])
       (rows_written (events st))"

text \<open>
  No two rows written share a key, none has a key of the set \<open>pre\<close> loaded at the start,
  and \<open>existing_links\<close> is that set together with the keys written.
\<close>

definition dedup_ok :: "string set \<Rightarrow> run_state \<Rightarrow> bool" where
  "dedup_ok pre st =
     (distinct (map link_of (rows_written (events st))) \<and>
      set (map link_of (rows_written (events st))) \<inter> pre = {} \<and>
      existing_links st = pre \<union> set (map link_of (rows_written (events st))))"

text \<open>The events before the main loop: the header, and the first extraction.\<close>

definition header_events :: "environment \<Rightarrow> event list" where
  "header_events env = (if csv_is_empty (csv_store env) then [HeaderWritten] else [])"

definition first_events :: "environment \<Rightarrow> string list list \<Rightarrow> event list" where
  "first_events env rows =
     (if load_progress (progress_store env) = 0
      then [Extracted (Scroll 0) rows, ProgressSaved 1]
      else [Extracted ResumeCheck rows])"

text \<open>Whether the extraction before the loop is left by an exception.\<close>

definition first_extraction_raises :: "environment \<Rightarrow> bool" where
  "first_extraction_raises env =
     (case extract_and_save_jobs (first_view env) (seen_at_start (csv_store env)) 0 of
        (rows, existing', None) \<Rightarrow> True
      | (rows, existing', Some result) \<Rightarrow> False)"

section \<open>Example inputs\<close>

text \<open>Cards and runs used to show the theorems at work.\<close>

definition analyst_card :: job_card where
  "analyst_card = \<lparr>card_title = Some ''Data Analyst'', card_company = Some ''Acme'',
     card_location = Some ''Riyadh'',
     card_href = Some ''https://sa.linkedin.com/jobs/view/data-analyst-4011?refId=abc'',
     card_listdate = Some (''Just now'', NotADate), card_unwritable = False\<rparr>"

definition engineer_card :: job_card where
  "engineer_card = \<lparr>card_title = Some ''Data Engineer'', card_company = Some ''Initech'',
     card_location = None,
     card_href = Some ''https://sa.linkedin.com/jobs/view/data-engineer-4012/apply?x=1'',
     card_listdate = Some (''2024-05-01'', Parsed ''2024-05-01''), card_unwritable = False\<rparr>"

definition linkless_card :: job_card where
  "linkless_card = \<lparr>card_title = Some ''Intern'', card_company = None, card_location = None,
     card_href = None, card_listdate = None, card_unwritable = False\<rparr>"

definition empty_link_card :: job_card where
  "empty_link_card = \<lparr>card_title = Some ''Clerk'', card_company = Some ''Acme'',
     card_location = None, card_href = Some [], card_listdate = None,
     card_unwritable = False\<rparr>"

definition overflow_card :: job_card where
  "overflow_card = \<lparr>card_title = Some ''Data Lead'', card_company = Some ''Acme'',
     card_location = None,
     card_href = Some ''https://sa.linkedin.com/jobs/view/data-lead-4013'',
     card_listdate = Some (''99999999999999999999'', ParserFault), card_unwritable = False\<rparr>"

definition analyst_row :: "string list" where
  "analyst_row = [''Data Analyst'', ''Acme'', ''Riyadh'',
     ''https://www.linkedin.com/jobs/view/data-analyst-4011/'', ''Just now'']"

definition engineer_row :: "string list" where
  "engineer_row = [''Data Engineer'', ''Initech'', ''N/A'',
     ''https://www.linkedin.com/jobs/view/data-engineer-4012/'', ''2024-05-01'']"

definition intern_row :: "string list" where
  "intern_row = [''Intern'', ''N/A'', ''N/A'', ''N/A'', ''N/A'']"

text \<open>A fresh start on a page whose results list stays empty.\<close>

definition quiet_page :: environment where
  "quiet_page = \<lparr>driver_starts = True, csv_store = Absent, progress_store = NoProgressFile,
     page_ready = True, first_view = JobList [],
     scroll_view = (\<lambda>n. Observed False (JobList []))\<rparr>"

text \<open>A fresh start: two cards at first, two more after the click of turn 1.\<close>

definition fresh_page :: environment where
  "fresh_page = \<lparr>driver_starts = True, csv_store = Absent, progress_store = NoProgressFile,
     page_ready = True, first_view = JobList [analyst_card, linkless_card],
     scroll_view = (\<lambda>n. Observed (n = 1)
        (JobList [analyst_card, linkless_card, engineer_card, linkless_card]))\<rparr>"

text \<open>
  A fresh start on a page that grows at turn 1 with a click, shows the same four cards
  at turns 2 and 3, and only two of them from turn 4 on.
\<close>

definition four_cards :: page_view where
  "four_cards = JobList [analyst_card, linkless_card, engineer_card, linkless_card]"

definition stalling_page :: environment where
  "stalling_page = \<lparr>driver_starts = True, csv_store = Absent, progress_store = NoProgressFile,
     page_ready = True, first_view = JobList [analyst_card, linkless_card],
     scroll_view = (\<lambda>n.
        if n \<le> 3 then Observed (n = 1) four_cards
        else Observed False (JobList [analyst_card, engineer_card]))\<rparr>"

text \<open>The state in which the run on \<open>stalling_page\<close> enters the main loop.\<close>

definition stalling_entry :: run_state where
  "stalling_entry = \<lparr>existing_links =
       {''N/A'', ''https://www.linkedin.com/jobs/view/data-analyst-4011/''},
     events = [HeaderWritten, Extracted (Scroll 0) [analyst_row, intern_row], ProgressSaved 1],
     scraped_job_count = 2, last_total_jobs_on_page = 2,
     no_new_jobs_consecutive_scrolls = 0\<rparr>"

text \<open>The state in which turn 1 of the run on \<open>stalling_page\<close> leaves the loop body.\<close>

definition stalling_turn_one :: run_state where
  "stalling_turn_one = \<lparr>existing_links =
       {''https://www.linkedin.com/jobs/view/data-engineer-4012/'', ''N/A'',
        ''https://www.linkedin.com/jobs/view/data-analyst-4011/''},
     events = [HeaderWritten, Extracted (Scroll 0) [analyst_row, intern_row], ProgressSaved 1,
               ScrollAttempt 1, Extracted (Scroll 1) [engineer_row], ProgressSaved 1],
     scraped_job_count = 3, last_total_jobs_on_page = 4,
     no_new_jobs_consecutive_scrolls = 0\<rparr>"

text \<open>A resumed run (progress 3) on a store of one record; turn 4 finds a second job.\<close>

definition resumed_page :: environment where
  "resumed_page = \<lparr>driver_starts = True,
     csv_store = Present [Row headers, Row analyst_row],
     progress_store = ProgressInt 3,
     page_ready = True, first_view = JobList [analyst_card],
     scroll_view = (\<lambda>n. Observed False (JobList [analyst_card, engineer_card]))\<rparr>"

text \<open>A resumed run (progress 3) on a store of one record that finds nothing new.\<close>

definition resumed_idle_page :: environment where
  "resumed_idle_page = \<lparr>driver_starts = True,
     csv_store = Present [Row headers, Row analyst_row],
     progress_store = ProgressInt 3,
     page_ready = True, first_view = JobList [analyst_card],
     scroll_view = (\<lambda>n. Observed False (JobList [analyst_card]))\<rparr>"

text \<open>The state in which the run on \<open>resumed_idle_page\<close> reaches line 304.\<close>

definition resumed_idle_start :: run_state where
  "resumed_idle_start = \<lparr>existing_links =
       {''https://www.linkedin.com/jobs/view/data-analyst-4011/''},
     events = [], scraped_job_count = 0, last_total_jobs_on_page = 0,
     no_new_jobs_consecutive_scrolls = 0\<rparr>"

text \<open>A fresh start whose second card has a date on which the parser overflows.\<close>

definition crashing_page :: environment where
  "crashing_page = \<lparr>driver_starts = True, csv_store = Absent, progress_store = NoProgressFile,
     page_ready = True, first_view = JobList [analyst_card, overflow_card],
     scroll_view = (\<lambda>n. Observed False (JobList [analyst_card, overflow_card]))\<rparr>"

text \<open>
  A fresh start on a store that was written under another header, with no \<open>Link\<close>
  column and a line end behind its last line, and the same file once the run has closed
  it: the stored lines, then the row written.
\<close>

definition foreign_page :: environment where
  "foreign_page = \<lparr>driver_starts = True,
     csv_store = Present [Row [''Title'', ''URL''],
       Row [''Data Analyst'', ''https://www.linkedin.com/jobs/view/data-analyst-4011/'']],
     progress_store = NoProgressFile,
     page_ready = True, first_view = JobList [engineer_card],
     scroll_view = (\<lambda>n. Observed False (JobList [engineer_card]))\<rparr>"


section \<open>Facts about splitting\<close>

lemma py_split_nonempty: "py_split sep s \<noteq> []"
  by (induction sep s rule: py_split.induct) (auto split: list.splits)

lemma py_split_single_first:
  "py_split [d] s ! 0 = takeWhile (\<lambda>c. c \<noteq> d) s"
proof (induction s)
  case Nil
  show ?case by simp
next
  case (Cons c cs)
  show ?case
  proof (cases "c = d")
    case True
    then show ?thesis by simp
  next
    case False
    obtain p ps where ps: "py_split [d] cs = p # ps"
      using py_split_nonempty [of "[d]" cs] by (cases "py_split [d] cs") auto
    with Cons False show ?thesis by simp
  qed
qed

lemma takeWhile_no_slash: "CHR ''/'' \<notin> set (takeWhile (\<lambda>c. c \<noteq> CHR ''/'') s)"
  by (induction s) auto

lemma job_id_clean:
  fixes rest :: string
  defines "j \<equiv> py_split ''?'' (py_split ''/'' rest ! 0) ! 0"
  shows "CHR ''/'' \<notin> set j" and "CHR ''?'' \<notin> set j"
proof -
  have j: "j = takeWhile (\<lambda>c. c \<noteq> CHR ''?'') (takeWhile (\<lambda>c. c \<noteq> CHR ''/'') rest)"
    unfolding j_def by (simp only: py_split_single_first)
  show "CHR ''/'' \<notin> set j"
    using takeWhile_no_slash [of rest] set_takeWhileD [of "CHR ''/''" _ "takeWhile (\<lambda>c. c \<noteq> CHR ''/'') rest"]
    unfolding j by blast
  show "CHR ''?'' \<notin> set j"
    unfolding j using set_takeWhileD by fastforce
qed

lemma marker_not_prefix:
  assumes "CHR ''/'' \<notin> set j"
  shows "\<not> prefix view_marker (j @ ''/'')"
proof
  assume "prefix view_marker (j @ ''/'')"
  then obtain t where t: "j @ ''/'' = view_marker @ t"
    by (auto simp: prefix_def)
  have len: "length (j @ ''/'') = length view_marker + length t"
    by (simp only: t length_append)
  then have "12 < length j"
    by (simp add: view_marker_def)
  moreover have "(j @ ''/'') ! 12 = CHR ''/''"
    by (simp only: t) (simp add: view_marker_def)
  ultimately have "j ! 12 = CHR ''/''"
    by (simp add: nth_append)
  with \<open>12 < length j\<close> have "CHR ''/'' \<in> set j"
    by (metis nth_mem)
  with assms show False by simp
qed

lemma py_split_marker_tail:
  "CHR ''/'' \<notin> set j \<Longrightarrow> py_split view_marker (j @ ''/'') = [j @ ''/'']"
proof (induction j)
  case Nil
  show ?case by (simp add: view_marker_def)
next
  case (Cons c j)
  then have tail: "py_split view_marker (j @ ''/'') = [j @ ''/'']" by simp
  have "\<not> prefix view_marker ((c # j) @ ''/'')"
    using marker_not_prefix [of "c # j"] Cons.prems by blast
  then have "\<not> prefix view_marker (c # (j @ ''/''))" by simp
  then show ?case
    using tail by (simp del: Cons_prefix_Cons)
qed

lemma py_split_canonical:
  "py_split view_marker (view_prefix @ rest) = ''https://www.'' # py_split view_marker rest"
  by (simp add: view_marker_def view_prefix_def)

lemma contains_canonical: "contains view_marker (view_prefix @ rest)"
  by (simp add: view_marker_def view_prefix_def)

lemma normalize_canonical:
  assumes "CHR ''/'' \<notin> set j" and "CHR ''?'' \<notin> set j"
  shows "normalize_linkedin_job_url (view_prefix @ j @ ''/'') = view_prefix @ j @ ''/''"
proof -
  have parts: "py_split view_marker (view_prefix @ j @ ''/'') = [''https://www.'', j @ ''/'']"
    using py_split_canonical [of "j @ ''/''"] py_split_marker_tail [OF assms(1)] by simp
  have a: "takeWhile (\<lambda>c. c \<noteq> CHR ''/'') (j @ ''/'') = j"
    using assms(1) by (induction j) auto
  have b: "takeWhile (\<lambda>c. c \<noteq> CHR ''?'') j = j"
    using assms(2) by (induction j) auto
  have "py_split ''?'' (py_split ''/'' (j @ ''/'') ! 0) ! 0 = j"
    by (simp only: py_split_single_first a b)
  then show ?thesis
    unfolding normalize_linkedin_job_url_def
    using contains_canonical [of "j @ ''/''"] parts by (simp add: Let_def)
qed

lemma normalize_shape:
  "normalize_linkedin_job_url u = u \<or>
   (\<exists>j. CHR ''/'' \<notin> set j \<and> CHR ''?'' \<notin> set j \<and>
        normalize_linkedin_job_url u = view_prefix @ j @ ''/'')"
proof (cases "contains view_marker u \<and> length (py_split view_marker u) > 1")
  case False
  then have "normalize_linkedin_job_url u = u"
    by (auto simp: normalize_linkedin_job_url_def Let_def)
  then show ?thesis ..
next
  case True
  define j where "j = py_split ''?'' (py_split ''/'' (py_split view_marker u ! 1) ! 0) ! 0"
  have "normalize_linkedin_job_url u = view_prefix @ j @ ''/''"
    using True by (simp add: normalize_linkedin_job_url_def Let_def j_def)
  moreover have "CHR ''/'' \<notin> set j" and "CHR ''?'' \<notin> set j"
    unfolding j_def by (rule job_id_clean)+
  ultimately show ?thesis by blast
qed

text \<open>
  C6. Normalising a link twice gives the same key as normalising it once, for every input
  string: links with or without query parameters, with or without trailing path segments,
  and strings that are no job links at all.
\<close>

theorem normalize_idempotent:
  "normalize_linkedin_job_url (normalize_linkedin_job_url u) = normalize_linkedin_job_url u"
proof -
  from normalize_shape [of u] show ?thesis
  proof
    assume "normalize_linkedin_job_url u = u"
    then show ?thesis by simp
  next
    assume "\<exists>j. CHR ''/'' \<notin> set j \<and> CHR ''?'' \<notin> set j \<and>
        normalize_linkedin_job_url u = view_prefix @ j @ ''/''"
    then obtain j where "CHR ''/'' \<notin> set j" "CHR ''?'' \<notin> set j"
      and n: "normalize_linkedin_job_url u = view_prefix @ j @ ''/''"
      by blast
    then show ?thesis
      unfolding n by (simp add: normalize_canonical)
  qed
qed

theorem normalize_idempotent_witness:
  "normalize_linkedin_job_url
     (normalize_linkedin_job_url ''https://sa.linkedin.com/jobs/view/data-42/extra?refId=7'')
   = ''https://www.linkedin.com/jobs/view/data-42/''"
  using normalize_idempotent [of "''https://sa.linkedin.com/jobs/view/data-42/extra?refId=7''"]
  by (simp add: normalize_linkedin_job_url_def view_marker_def view_prefix_def)

section \<open>Facts about extraction and the loop\<close>

lemma link_of_csv_row: "link_of (csv_row c) = normalize_linkedin_job_url (job_link c)"
  by (simp add: link_of_def csv_row_def)

lemma save_new_jobs_props:
  "save_new_jobs cs ex k = (rows, ex', k', raised) \<Longrightarrow>
     k' = k + length rows \<and> ex' = ex \<union> set (map link_of rows) \<and>
     distinct (map link_of rows) \<and> set (map link_of rows) \<inter> ex = {} \<and>
     list_all (\<lambda>r. normalize_linkedin_job_url (link_of r) = link_of r \<and> length r = 5 \<and>
                  link_of r \<noteq> []) rows"
proof (induction cs arbitrary: ex k rows ex' k' raised)
  case Nil
  then show ?case by simp
next
  case (Cons c cs)
  let ?l = "normalize_linkedin_job_url (job_link c)"
  show ?case
  proof (cases "date_raises c \<or> (?l \<noteq> [] \<and> ?l \<notin> ex \<and> card_unwritable c)")
    case True
    then have "rows = []" "ex' = ex" "k' = k"
      using Cons.prems by (auto simp: Let_def split: if_splits)
    then show ?thesis by simp
  next
    case stays: False
    show ?thesis
    proof (cases "?l \<noteq> [] \<and> ?l \<notin> ex")
      case False
      then have "save_new_jobs cs ex k = (rows, ex', k', raised)"
        using Cons.prems stays by (auto simp: Let_def)
      then show ?thesis by (rule Cons.IH)
    next
      case True
      obtain rs where rs: "save_new_jobs cs (insert ?l ex) (k + 1) = (rs, ex', k', raised)"
        and rows: "rows = csv_row c # rs"
        using Cons.prems True stays by (auto simp: Let_def split: prod.splits)
      note ih = Cons.IH [OF rs]
      have l: "link_of (csv_row c) = ?l" by (rule link_of_csv_row)
      have n: "normalize_linkedin_job_url ?l = ?l"
        using normalize_shape [of "job_link c"] by (auto simp: normalize_canonical)
      have len: "length (csv_row c) = 5" by (simp add: csv_row_def)
      show ?thesis
        using ih True unfolding rows by (auto simp: l n len)
    qed
  qed
qed

lemma save_new_jobs_counter:
  "save_new_jobs cs ex k = (rows, ex', k', raised) \<Longrightarrow>
     save_new_jobs cs ex k2 = (rows, ex', k2 + length rows, raised)"
proof (induction cs arbitrary: ex k k2 rows ex' k' raised)
  case Nil
  then show ?case by auto
next
  case (Cons c cs)
  let ?l = "normalize_linkedin_job_url (job_link c)"
  show ?case
  proof (cases "date_raises c \<or> (?l \<noteq> [] \<and> ?l \<notin> ex \<and> card_unwritable c)")
    case True
    then show ?thesis using Cons.prems by (auto simp: Let_def split: if_splits)
  next
    case stays: False
    show ?thesis
    proof (cases "?l \<noteq> [] \<and> ?l \<notin> ex")
      case False
      then have "save_new_jobs cs ex k = (rows, ex', k', raised)"
        using Cons.prems stays by (auto simp: Let_def)
      from Cons.IH [OF this, of k2] False stays show ?thesis by (auto simp: Let_def)
    next
      case True
      obtain rs where rs: "save_new_jobs cs (insert ?l ex) (k + 1) = (rs, ex', k', raised)"
        and rows: "rows = csv_row c # rs"
        using Cons.prems True stays by (auto simp: Let_def split: prod.splits)
      from Cons.IH [OF rs, of "k2 + 1"] True stays show ?thesis
        unfolding rows by (auto simp: Let_def)
    qed
  qed
qed

lemma extract_props:
  assumes "extract_and_save_jobs view ex k = (rows, ex', res)"
  shows "ex' = ex \<union> set (map link_of rows) \<and>
     distinct (map link_of rows) \<and> set (map link_of rows) \<inter> ex = {} \<and>
     list_all (\<lambda>r. normalize_linkedin_job_url (link_of r) = link_of r \<and> length r = 5 \<and>
                  link_of r \<noteq> []) rows \<and>
     (\<forall>k' found. res = Some (k', found) \<longrightarrow> k' = k + length rows \<and> found = view_count view)"
proof (cases view)
  case HtmlError
  then show ?thesis
    using assms by (auto simp: extract_and_save_jobs_def view_count_def)
next
  case NoContainer
  then show ?thesis
    using assms by (auto simp: extract_and_save_jobs_def view_count_def)
next
  case (JobList cs)
  obtain k' raised where s: "save_new_jobs cs ex k = (rows, ex', k', raised)"
    and r: "res = (if raised then None else Some (k', length cs))"
    using assms JobList by (auto simp: extract_and_save_jobs_def split: prod.splits)
  from save_new_jobs_props [OF s] r JobList show ?thesis
    by (auto simp: view_count_def)
qed

lemma extract_counter:
  assumes "extract_and_save_jobs view ex k = (rows, ex', res)"
  shows "extract_and_save_jobs view ex k2 =
           (rows, ex', map_option (\<lambda>(k', found). (k2 + length rows, found)) res)"
proof (cases view)
  case HtmlError
  with assms show ?thesis by (auto simp: extract_and_save_jobs_def)
next
  case NoContainer
  with assms show ?thesis by (auto simp: extract_and_save_jobs_def)
next
  case (JobList cs)
  obtain k' raised where s: "save_new_jobs cs ex k = (rows, ex', k', raised)"
    and r: "res = (if raised then None else Some (k', length cs))"
    using assms JobList by (auto simp: extract_and_save_jobs_def split: prod.splits)
  from save_new_jobs_counter [OF s, of k2] r JobList show ?thesis
    by (auto simp: extract_and_save_jobs_def)
qed

lemma rows_written_append: "rows_written (a @ b) = rows_written a @ rows_written b"
  by (induction a rule: rows_written.induct) auto

lemma scroll_attempts_append: "scroll_attempts (a @ b) = scroll_attempts a @ scroll_attempts b"
  by (induction a rule: scroll_attempts.induct) auto

text \<open>What one turn's body does, in one statement.\<close>

lemma scroll_body_char:
  assumes "scroll_body n clicked view st = (st', out)"
  obtains rows ex' res where
    "extract_and_save_jobs view (existing_links st) (scraped_job_count st) = (rows, ex', res)"
    "existing_links st' = ex'"
    "events st' = events st @ Extracted (Scroll n) rows # (if out = None then [ProgressSaved n] else [])"
    "res = None \<Longrightarrow> out = Some Crashed \<and> scraped_job_count st' = scraped_job_count st"
    "\<And>k' found. res = Some (k', found) \<Longrightarrow>
       scraped_job_count st' = k' \<and>
       no_new_jobs_consecutive_scrolls st' =
         (if found > last_total_jobs_on_page st \<or> k' > scraped_job_count st \<or> clicked then 0
          else no_new_jobs_consecutive_scrolls st + 1) \<and>
       out = (if 5 \<le> no_new_jobs_consecutive_scrolls st' then Some StallLimit else None) \<and>
       (out = None \<longrightarrow> last_total_jobs_on_page st' = found)"
proof -
  obtain rows ex' res where
    e: "extract_and_save_jobs view (existing_links st) (scraped_job_count st) = (rows, ex', res)"
    by (metis prod_cases3)
  show thesis
  proof (rule that [OF e])
    show "existing_links st' = ex'"
      using assms e
      by (cases res)
         (auto simp: scroll_body_def save_progress_def Let_def split: if_splits)
    show "events st' = events st @ Extracted (Scroll n) rows # (if out = None then [ProgressSaved n] else [])"
      using assms e
      by (cases res)
         (auto simp: scroll_body_def save_progress_def Let_def split: if_splits)
    show "res = None \<Longrightarrow> out = Some Crashed \<and> scraped_job_count st' = scraped_job_count st"
      using assms e by (auto simp: scroll_body_def)
    show "\<And>k' found. res = Some (k', found) \<Longrightarrow>
       scraped_job_count st' = k' \<and>
       no_new_jobs_consecutive_scrolls st' =
         (if found > last_total_jobs_on_page st \<or> k' > scraped_job_count st \<or> clicked then 0
          else no_new_jobs_consecutive_scrolls st + 1) \<and>
       out = (if 5 \<le> no_new_jobs_consecutive_scrolls st' then Some StallLimit else None) \<and>
       (out = None \<longrightarrow> last_total_jobs_on_page st' = found)"
      using assms e
      by (auto simp: scroll_body_def save_progress_def Let_def
          MAX_NO_NEW_JOBS_CONSECUTIVE_SCROLLS_def split: if_splits)
  qed
qed

lemma batch_keeps_dedup:
  assumes "extract_and_save_jobs view (existing_links st) k = (rows, ex', res)"
    and "dedup_ok pre st"
    and "existing_links st' = ex'"
    and "rows_written (events st') = rows_written (events st) @ rows"
  shows "dedup_ok pre st'"
  using extract_props [OF assms(1)] assms(2-4)
  unfolding dedup_ok_def by auto

lemma batch_keeps_well:
  assumes "extract_and_save_jobs view ex k = (rows, ex', res)"
    and "well_kept st"
    and "rows_written (events st') = rows_written (events st) @ rows"
  shows "well_kept st'"
  using extract_props [OF assms(1)] assms(2-3)
  unfolding well_kept_def by (auto simp: list_all_iff)

lemma scroll_body_state:
  assumes "scroll_body n clicked view st = (st', out)"
  shows "(dedup_ok pre st \<longrightarrow> dedup_ok pre st') \<and> (well_kept st \<longrightarrow> well_kept st')"
proof -
  from assms obtain rows ex' res where
    e: "extract_and_save_jobs view (existing_links st) (scraped_job_count st) = (rows, ex', res)"
    and x: "existing_links st' = ex'"
    and ev: "events st' = events st @ Extracted (Scroll n) rows # (if out = None then [ProgressSaved n] else [])"
    by (rule scroll_body_char)
  have rw: "rows_written (events st') = rows_written (events st) @ rows"
    unfolding ev by (simp add: rows_written_append)
  show ?thesis
    using batch_keeps_dedup [OF e _ x rw] batch_keeps_well [OF e _ rw] by auto
qed

lemma scroll_loop_state:
  "scroll_loop src ns st = (st', why) \<Longrightarrow>
     (dedup_ok pre st \<longrightarrow> dedup_ok pre st') \<and> (well_kept st \<longrightarrow> well_kept st')"
proof (induction ns arbitrary: st)
  case Nil
  then show ?case by simp
next
  case (Cons n ns)
  define st1 where "st1 = st\<lparr>events := events st @ [ScrollAttempt n]\<rparr>"
  have same: "dedup_ok pre st1 = dedup_ok pre st" "well_kept st1 = well_kept st"
    by (simp_all add: st1_def dedup_ok_def well_kept_def rows_written_append)
  show ?case
  proof (cases "src n")
    case Crash
    then have "st' = st1" using Cons.prems by (simp add: st1_def Let_def)
    then show ?thesis using same by simp
  next
    case (Observed clicked view)
    obtain st2 out where b: "scroll_body n clicked view st1 = (st2, out)"
      by (cases "scroll_body n clicked view st1") auto
    note s = scroll_body_state [OF b, of pre]
    show ?thesis
    proof (cases out)
      case (Some reason)
      then have "st' = st2" using Cons.prems Observed b by (simp add: st1_def Let_def)
      then show ?thesis using s same by simp
    next
      case None
      then have "scroll_loop src ns st2 = (st', why)"
        using Cons.prems Observed b by (simp add: st1_def Let_def)
      from Cons.IH [OF this] s same show ?thesis by auto
    qed
  qed
qed

lemma scroll_loop_events:
  "scroll_loop src ns st = (st', why) \<Longrightarrow>
     \<exists>rest. events st' = events st @ rest \<and>
       (rest = [] \<or> (\<exists>m es. rest = ScrollAttempt m # es)) \<and>
       saves_follow_batches rest \<and>
       prefix (scroll_attempts rest) ns \<and>
       (ns \<noteq> [] \<longrightarrow> scroll_attempts rest \<noteq> []) \<and>
       (why = AttemptsExhausted \<longrightarrow> scroll_attempts rest = ns)"
proof (induction ns arbitrary: st)
  case Nil
  then show ?case by simp
next
  case (Cons n ns)
  define st1 where "st1 = st\<lparr>events := events st @ [ScrollAttempt n]\<rparr>"
  show ?case
  proof (cases "src n")
    case Crash
    then have "st' = st1" "why = Crashed" using Cons.prems by (simp_all add: st1_def Let_def)
    then have "events st' = events st @ [ScrollAttempt n]" by (simp add: st1_def)
    then show ?thesis using \<open>why = Crashed\<close> by simp
  next
    case (Observed clicked view)
    obtain st2 out where b: "scroll_body n clicked view st1 = (st2, out)"
      by (cases "scroll_body n clicked view st1") auto
    from b obtain rows ex' res where
      ev: "events st2 = events st1 @ Extracted (Scroll n) rows # (if out = None then [ProgressSaved n] else [])"
      and crash: "res = None \<Longrightarrow> out = Some Crashed \<and> scraped_job_count st2 = scraped_job_count st1"
      and ret: "\<And>k' found. res = Some (k', found) \<Longrightarrow>
         scraped_job_count st2 = k' \<and>
         no_new_jobs_consecutive_scrolls st2 =
           (if found > last_total_jobs_on_page st1 \<or> k' > scraped_job_count st1 \<or> clicked then 0
            else no_new_jobs_consecutive_scrolls st1 + 1) \<and>
         out = (if 5 \<le> no_new_jobs_consecutive_scrolls st2 then Some StallLimit else None) \<and>
         (out = None \<longrightarrow> last_total_jobs_on_page st2 = found)"
      by (rule scroll_body_char) blast
    show ?thesis
    proof (cases out)
      case (Some reason)
      then have "st' = st2" "why = reason"
        using Cons.prems Observed b by (simp_all add: st1_def Let_def)
      moreover have "reason \<noteq> AttemptsExhausted"
        using crash ret Some by (cases res) (auto split: if_splits)
      moreover have "events st2 = events st @ [ScrollAttempt n, Extracted (Scroll n) rows]"
        using ev Some by (simp add: st1_def)
      ultimately show ?thesis by simp
    next
      case None
      then have "scroll_loop src ns st2 = (st', why)"
        using Cons.prems Observed b by (simp add: st1_def Let_def)
      from Cons.IH [OF this] obtain rest where
        r: "events st' = events st2 @ rest" "rest = [] \<or> (\<exists>m es. rest = ScrollAttempt m # es)"
          "saves_follow_batches rest"
          "prefix (scroll_attempts rest) ns" "ns \<noteq> [] \<longrightarrow> scroll_attempts rest \<noteq> []"
          "why = AttemptsExhausted \<longrightarrow> scroll_attempts rest = ns"
        by blast
      let ?rest = "ScrollAttempt n # Extracted (Scroll n) rows # ProgressSaved n # rest"
      have "events st' = events st @ ?rest"
        using r(1) ev None by (simp add: st1_def)
      moreover have "saves_follow_batches ?rest" using r(3) by simp
      moreover have "prefix (scroll_attempts ?rest) (n # ns)" using r(4) by simp
      moreover have "why = AttemptsExhausted \<longrightarrow> scroll_attempts ?rest = n # ns" using r(6) by simp
      ultimately show ?thesis by fastforce
    qed
  qed
qed

section \<open>Whole runs\<close>

lemma loading_total: "get_existing_job_links f = Inr (seen_at_start f)"
  by (simp add: get_existing_job_links_def seen_at_start_def
      split: csv_file.splits list.splits read_event.splits option.splits)

lemma first_extraction_raises_iff:
  "extract_and_save_jobs (first_view env) (seen_at_start (csv_store env)) k = (rows, ex', res) \<Longrightarrow>
     first_extraction_raises env = (res = None)"
  using extract_counter [of "first_view env" "seen_at_start (csv_store env)" k rows ex' res 0]
  by (cases res) (auto simp: first_extraction_raises_def)

lemma scrape_not_started:
  "\<not> driver_starts env \<Longrightarrow> scrape_linkedin_jobs env m = (ret, st, why) \<Longrightarrow>
     ret = 0 \<and> events st = [] \<and> existing_links st = {} \<and> why = DriverInitFailed"
  by (auto simp: scrape_linkedin_jobs_def Let_def)

lemma scrape_not_ready:
  "driver_starts env \<Longrightarrow> \<not> page_ready env \<Longrightarrow> scrape_linkedin_jobs env m = (ret, st, why) \<Longrightarrow>
     ret = 0 \<and> events st = header_events env \<and>
     existing_links st = seen_at_start (csv_store env) \<and> why = SetupFailed"
  by (auto simp: scrape_linkedin_jobs_def Let_def loading_total header_events_def)

text \<open>The state in which a run that got as far reaches the first extraction.\<close>

lemma scrape_reaches_loop:
  assumes "driver_starts env" and "page_ready env"
    and "scrape_linkedin_jobs env m = (ret, st, why)"
  obtains st0 st1 returned where
    "existing_links st0 = seen_at_start (csv_store env)"
    "events st0 = header_events env"
    "scraped_job_count st0 = 0"
    "before_loop env st0 = (st1, returned)"
    "\<not> returned \<Longrightarrow> st = st1 \<and> why = Crashed \<and> ret = scraped_job_count st1"
    "returned \<Longrightarrow>
       scroll_loop (scroll_view env) [load_progress (progress_store env) + 1..m] st1 = (st, why) \<and>
       ret = scraped_job_count st"
    "no_new_jobs_consecutive_scrolls st0 = 0"
proof -
  define st0 where "st0 = \<lparr>existing_links = seen_at_start (csv_store env),
     events = header_events env, scraped_job_count = 0,
     last_total_jobs_on_page = 0, no_new_jobs_consecutive_scrolls = 0\<rparr>"
  obtain st1 returned where b: "before_loop env st0 = (st1, returned)"
    by (cases "before_loop env st0") auto
  have run: "scrape_linkedin_jobs env m =
      (if returned
       then (case scroll_loop (scroll_view env) [load_progress (progress_store env) + 1..m] st1 of
               (st2, why) \<Rightarrow> (scraped_job_count st2, st2, why))
       else (scraped_job_count st1, st1, Crashed))"
    using assms(1,2) b
    by (simp add: scrape_linkedin_jobs_def Let_def loading_total st0_def header_events_def)
  show thesis
  proof (rule that [OF _ _ _ b])
    show "existing_links st0 = seen_at_start (csv_store env)" by (simp add: st0_def)
    show "events st0 = header_events env" by (simp add: st0_def)
    show "scraped_job_count st0 = 0" by (simp add: st0_def)
    show "\<not> returned \<Longrightarrow> st = st1 \<and> why = Crashed \<and> ret = scraped_job_count st1"
      using run assms(3) by simp
    show "returned \<Longrightarrow>
       scroll_loop (scroll_view env) [load_progress (progress_store env) + 1..m] st1 = (st, why) \<and>
       ret = scraped_job_count st"
      using run assms(3) by (auto split: prod.splits)
    show "no_new_jobs_consecutive_scrolls st0 = 0" by (simp add: st0_def)
  qed
qed

text \<open>What the extraction before the loop does, in one statement.\<close>

lemma before_loop_char:
  assumes "before_loop env st0 = (st1, returned)"
    and "existing_links st0 = seen_at_start (csv_store env)"
    and "scraped_job_count st0 = 0"
  obtains rows ex' res where
    "extract_and_save_jobs (first_view env) (seen_at_start (csv_store env))
       (if load_progress (progress_store env) = 0 then 0 else card (seen_at_start (csv_store env)))
     = (rows, ex', res)"
    "existing_links st1 = ex'"
    "returned = (res \<noteq> None)"
    "returned = (\<not> first_extraction_raises env)"
    "events st1 = events st0 @
       (if returned then first_events env rows
        else [Extracted (if load_progress (progress_store env) = 0 then Scroll 0 else ResumeCheck) rows])"
    "scraped_job_count st1 =
       (if load_progress (progress_store env) = 0
        then (if returned then length rows else 0)
        else card (seen_at_start (csv_store env)))"
    "returned \<Longrightarrow> last_total_jobs_on_page st1 = view_count (first_view env)"
    "no_new_jobs_consecutive_scrolls st1 = no_new_jobs_consecutive_scrolls st0"
proof -
  let ?pre = "seen_at_start (csv_store env)"
  let ?k = "load_progress (progress_store env)"
  obtain rows ex' res where
    e: "extract_and_save_jobs (first_view env) ?pre (if ?k = 0 then 0 else card ?pre) = (rows, ex', res)"
    by (metis prod_cases3)
  note p = extract_props [OF e]
  note f = first_extraction_raises_iff [OF e]
  show thesis
  proof (rule that [OF e])
    show "existing_links st1 = ex'"
      using assms e
      by (cases res; cases "?k = 0")
         (auto simp: before_loop_def save_progress_def)
    show r: "returned = (res \<noteq> None)"
      using assms e
      by (cases res; cases "?k = 0")
         (auto simp: before_loop_def save_progress_def)
    show "returned = (\<not> first_extraction_raises env)"
      using r f by simp
    show "events st1 = events st0 @
       (if returned then first_events env rows
        else [Extracted (if ?k = 0 then Scroll 0 else ResumeCheck) rows])"
      using assms e
      by (cases res; cases "?k = 0")
         (auto simp: before_loop_def save_progress_def first_events_def)
    show "scraped_job_count st1 =
       (if ?k = 0 then (if returned then length rows else 0) else card ?pre)"
      using assms e p
      by (cases res; cases "?k = 0")
         (auto simp: before_loop_def save_progress_def)
    show "returned \<Longrightarrow> last_total_jobs_on_page st1 = view_count (first_view env)"
      using assms e p
      by (cases res; cases "?k = 0")
         (auto simp: before_loop_def save_progress_def)
    show "no_new_jobs_consecutive_scrolls st1 = no_new_jobs_consecutive_scrolls st0"
      using assms e
      by (cases res; cases "?k = 0")
         (auto simp: before_loop_def save_progress_def)
  qed
qed

lemma rows_before_loop:
  "rows_written (header_events env) = []"
  "rows_written (first_events env rows) = rows"
  "scroll_attempts (header_events env) = []"
  "scroll_attempts (first_events env rows) = []"
  by (simp_all add: header_events_def first_events_def)

lemma saves_follow_batches_loop:
  assumes "saves_follow_batches rest" and "rest = [] \<or> (\<exists>m es. rest = ScrollAttempt m # es)"
  shows "saves_follow_batches (header_events env @ first_events env rows @ rest)"
  using assms by (auto simp: header_events_def first_events_def)

text \<open>A run whose first extraction returns: the events before the loop, then the loop's.\<close>

lemma run_events:
  assumes "driver_starts env" and "page_ready env" and "\<not> first_extraction_raises env"
    and "scrape_linkedin_jobs env m = (ret, st, why)"
  obtains rows rest where
    "events st = header_events env @ first_events env rows @ rest"
    "saves_follow_batches rest" "rest = [] \<or> (\<exists>n es. rest = ScrollAttempt n # es)"
    "prefix (scroll_attempts rest) [load_progress (progress_store env) + 1..m]"
    "load_progress (progress_store env) < m \<Longrightarrow> scroll_attempts rest \<noteq> []"
    "why = AttemptsExhausted \<Longrightarrow> scroll_attempts rest = [load_progress (progress_store env) + 1..m]"
proof -
  from assms(1,2,4) obtain st0 st1 returned where
    x0: "existing_links st0 = seen_at_start (csv_store env)"
    and e0: "events st0 = header_events env"
    and c0: "scraped_job_count st0 = 0"
    and b: "before_loop env st0 = (st1, returned)"
    and go: "returned \<Longrightarrow>
       scroll_loop (scroll_view env) [load_progress (progress_store env) + 1..m] st1 = (st, why) \<and>
       ret = scraped_job_count st"
    by (rule scrape_reaches_loop) blast
  from b x0 c0 obtain rows where
    r: "returned = (\<not> first_extraction_raises env)"
    and ev: "events st1 = events st0 @
       (if returned then first_events env rows
        else [Extracted (if load_progress (progress_store env) = 0 then Scroll 0 else ResumeCheck) rows])"
    by (rule before_loop_char) blast
  from r assms(3) have returned by simp
  from go [OF this] have
    l: "scroll_loop (scroll_view env) [load_progress (progress_store env) + 1..m] st1 = (st, why)"
    by simp
  from scroll_loop_events [OF l] obtain rest where
    rest: "events st = events st1 @ rest"
      "rest = [] \<or> (\<exists>m es. rest = ScrollAttempt m # es)"
      "saves_follow_batches rest"
      "prefix (scroll_attempts rest) [load_progress (progress_store env) + 1..m]"
      "[load_progress (progress_store env) + 1..m] \<noteq> [] \<longrightarrow> scroll_attempts rest \<noteq> []"
      "why = AttemptsExhausted \<longrightarrow> scroll_attempts rest = [load_progress (progress_store env) + 1..m]"
    by blast
  show thesis
    apply (rule that [of rows rest])
    using rest ev e0 \<open>returned\<close> by (auto simp: upto.simps)
qed

text \<open>A run whose first extraction is left by an exception ends there.\<close>

lemma run_raised:
  assumes "driver_starts env" and "page_ready env" and "first_extraction_raises env"
    and "scrape_linkedin_jobs env m = (ret, st, why)"
  shows "why = Crashed \<and>
         (\<exists>rows. events st = header_events env @
            [Extracted (if load_progress (progress_store env) = 0 then Scroll 0 else ResumeCheck)
               rows]) \<and>
         ret = (if load_progress (progress_store env) = 0 then 0
                else card (seen_at_start (csv_store env)))"
proof -
  from assms(1,2,4) obtain st0 st1 returned where
    x0: "existing_links st0 = seen_at_start (csv_store env)"
    and e0: "events st0 = header_events env"
    and c0: "scraped_job_count st0 = 0"
    and b: "before_loop env st0 = (st1, returned)"
    and stop: "\<not> returned \<Longrightarrow> st = st1 \<and> why = Crashed \<and> ret = scraped_job_count st1"
    by (rule scrape_reaches_loop) blast
  from b x0 c0 obtain rows where
    r: "returned = (\<not> first_extraction_raises env)"
    and ev: "events st1 = events st0 @
       (if returned then first_events env rows
        else [Extracted (if load_progress (progress_store env) = 0 then Scroll 0 else ResumeCheck) rows])"
    and c: "scraped_job_count st1 =
       (if load_progress (progress_store env) = 0
        then (if returned then length rows else 0)
        else card (seen_at_start (csv_store env)))"
    by (rule before_loop_char) blast
  from r assms(3) have "\<not> returned" by simp
  with stop ev e0 c show ?thesis by auto
qed

lemma run_invariants:
  assumes "driver_starts env" and "scrape_linkedin_jobs env m = (ret, st, why)"
  shows "dedup_ok (seen_at_start (csv_store env)) st \<and> well_kept st"
proof (cases "page_ready env")
  case False
  from scrape_not_ready [OF assms(1) False assms(2)]
  show ?thesis
    by (auto simp: dedup_ok_def well_kept_def header_events_def)
next
  case True
  let ?pre = "seen_at_start (csv_store env)"
  from assms(1) True assms(2) obtain st0 st1 returned where
    x0: "existing_links st0 = ?pre"
    and e0: "events st0 = header_events env"
    and c0: "scraped_job_count st0 = 0"
    and b: "before_loop env st0 = (st1, returned)"
    and stop: "\<not> returned \<Longrightarrow> st = st1 \<and> why = Crashed \<and> ret = scraped_job_count st1"
    and go: "returned \<Longrightarrow>
       scroll_loop (scroll_view env) [load_progress (progress_store env) + 1..m] st1 = (st, why) \<and>
       ret = scraped_job_count st"
    by (rule scrape_reaches_loop) blast
  from b x0 c0 obtain rows ex' res where
    e: "extract_and_save_jobs (first_view env) ?pre
         (if load_progress (progress_store env) = 0 then 0 else card ?pre) = (rows, ex', res)"
    and x: "existing_links st1 = ex'"
    and ev: "events st1 = events st0 @
       (if returned then first_events env rows
        else [Extracted (if load_progress (progress_store env) = 0 then Scroll 0 else ResumeCheck) rows])"
    by (rule before_loop_char) blast
  have rw: "rows_written (events st1) = rows"
    unfolding ev e0 by (simp add: rows_written_append rows_before_loop)
  have inv: "dedup_ok ?pre st1" "well_kept st1"
    using extract_props [OF e] x rw by (auto simp: dedup_ok_def well_kept_def list_all_iff)
  show ?thesis
  proof (cases returned)
    case False
    with stop inv show ?thesis by simp
  next
    case True
    from go [OF True] have
      "scroll_loop (scroll_view env) [load_progress (progress_store env) + 1..m] st1 = (st, why)"
      by simp
    from scroll_loop_state [OF this, of ?pre] inv show ?thesis by simp
  qed
qed

lemma well_kept_keys:
  "well_kept st \<Longrightarrow>
     map (\<lambda>r. normalize_linkedin_job_url (link_of r)) (rows_written (events st)) =
     map link_of (rows_written (events st))"
  unfolding well_kept_def by (induction "rows_written (events st)") (auto simp: list_all_iff)

text \<open>
  C1. In every run, no two rows written to the CSV file share a normalised key, no row
  written has a key of the set loaded from the file at the start, and when the browser
  started the set \<open>existing_links\<close> at the end is the loaded set together with the keys
  of the rows written: a key enters it exactly when its row is written.
\<close>

theorem dedup_invariant:
  assumes "scrape_linkedin_jobs env m = (ret, st, why)"
  shows "distinct (map (\<lambda>r. normalize_linkedin_job_url (link_of r)) (rows_written (events st))) \<and>
         set (map (\<lambda>r. normalize_linkedin_job_url (link_of r)) (rows_written (events st)))
           \<inter> seen_at_start (csv_store env) = {} \<and>
         (driver_starts env \<longrightarrow>
            existing_links st = seen_at_start (csv_store env) \<union>
              set (map (\<lambda>r. normalize_linkedin_job_url (link_of r)) (rows_written (events st))))"
proof (cases "driver_starts env")
  case False
  from scrape_not_started [OF False assms] False show ?thesis by simp
next
  case True
  from run_invariants [OF True assms]
  have d: "dedup_ok (seen_at_start (csv_store env)) st" and w: "well_kept st" by simp_all
  show ?thesis
    using d unfolding well_kept_keys [OF w] dedup_ok_def by simp
qed

section \<open>The order of writes and saves\<close>

lemma sfb_head: "saves_follow_batches (e # es) \<Longrightarrow> e \<noteq> ProgressSaved n"
  by auto

lemma sfb_pair:
  "saves_follow_batches (e # ProgressSaved n # es) \<Longrightarrow>
     (\<exists>sid rows. e = Extracted sid rows \<and> (sid = Scroll n \<or> (sid = Scroll 0 \<and> n = 1))) \<and>
     saves_follow_batches es"
  by (cases e) auto

lemma sfb_drop:
  "saves_follow_batches (e # c # es) \<Longrightarrow> \<forall>n. c \<noteq> ProgressSaved n \<Longrightarrow>
     saves_follow_batches (c # es)"
  by (cases e; cases c) auto

lemma save_behind_batch:
  "saves_follow_batches (before @ ProgressSaved n # after) \<Longrightarrow>
     \<exists>earlier sid rows. before = earlier @ [Extracted sid rows] \<and>
        (sid = Scroll n \<or> (sid = Scroll 0 \<and> n = 1))"
proof (induction before rule: induct_list012)
  case 1
  then show ?case using sfb_head [of "ProgressSaved n" after n] by simp
next
  case (2 x)
  then have "saves_follow_batches (x # ProgressSaved n # after)" by simp
  from sfb_pair [OF this] show ?case by auto
next
  case (3 x y zs)
  from "3.prems" have all: "saves_follow_batches (x # y # (zs @ ProgressSaved n # after))"
    by simp
  show ?case
  proof (cases "\<exists>k. y = ProgressSaved k")
    case True
    then obtain k where y: "y = ProgressSaved k" by blast
    from sfb_pair [OF all [unfolded y]]
    have "saves_follow_batches (zs @ ProgressSaved n # after)" by simp
    from "3.IH"(1) [OF this] obtain earlier sid rows where
      "zs = earlier @ [Extracted sid rows]" "sid = Scroll n \<or> (sid = Scroll 0 \<and> n = 1)"
      by blast
    then have "x # y # zs = (x # y # earlier) @ [Extracted sid rows]" by simp
    with \<open>sid = Scroll n \<or> (sid = Scroll 0 \<and> n = 1)\<close> show ?thesis by blast
  next
    case False
    then have "\<forall>k. y \<noteq> ProgressSaved k" by simp
    from sfb_drop [OF all this]
    have "saves_follow_batches ((y # zs) @ ProgressSaved n # after)" by simp
    from "3.IH"(2) [OF this] obtain earlier sid rows where
      "y # zs = earlier @ [Extracted sid rows]" "sid = Scroll n \<or> (sid = Scroll 0 \<and> n = 1)"
      by blast
    then have "x # y # zs = (x # earlier) @ [Extracted sid rows]" by simp
    with \<open>sid = Scroll n \<or> (sid = Scroll 0 \<and> n = 1)\<close> show ?thesis by blast
  qed
qed

text \<open>
  The calls are in the order the scraper intends: wherever a value \<open>n\<close> is saved to the
  progress file, the call right before it handed the batch of turn \<open>n\<close> to the CSV writer
  (for the value 1, the batch of the first extraction).
\<close>

lemma save_call_follows_batch:
  assumes "scrape_linkedin_jobs env m = (ret, st, why)"
    and "events st = before @ ProgressSaved n # after"
  shows "\<exists>earlier sid rows. before = earlier @ [Extracted sid rows] \<and>
           (sid = Scroll n \<or> (sid = Scroll 0 \<and> n = 1))"
proof -
  have "saves_follow_batches (events st)"
  proof (cases "driver_starts env \<and> page_ready env")
    case False
    show ?thesis
    proof (cases "driver_starts env")
      case False
      from scrape_not_started [OF False assms(1)] show ?thesis by simp
    next
      case True
      with \<open>\<not> (driver_starts env \<and> page_ready env)\<close> have "\<not> page_ready env" by simp
      from scrape_not_ready [OF True this assms(1)] show ?thesis
        by (simp add: header_events_def)
    qed
  next
    case True
    then have d: "driver_starts env" and p: "page_ready env" by simp_all
    show ?thesis
    proof (cases "first_extraction_raises env")
      case True
      from run_raised [OF d p True assms(1)] show ?thesis
        by (auto simp: header_events_def)
    next
      case False
      from d p False assms(1) obtain rows rest where
        "events st = header_events env @ first_events env rows @ rest"
        "saves_follow_batches rest" "rest = [] \<or> (\<exists>n es. rest = ScrollAttempt n # es)"
        by (rule run_events)
      then show ?thesis
        using saves_follow_batches_loop by simp
    qed
  qed
  then show ?thesis
    unfolding assms(2) by (rule save_behind_batch)
qed

section \<open>Example runs\<close>

lemma quiet_page_run:
  "scrape_linkedin_jobs quiet_page 9 =
     (0, \<lparr>existing_links = {},
          events =
            [HeaderWritten, Extracted (Scroll 0) [], ProgressSaved 1,
             ScrollAttempt 1, Extracted (Scroll 1) [], ProgressSaved 1,
             ScrollAttempt 2, Extracted (Scroll 2) [], ProgressSaved 2,
             ScrollAttempt 3, Extracted (Scroll 3) [], ProgressSaved 3,
             ScrollAttempt 4, Extracted (Scroll 4) [], ProgressSaved 4,
             ScrollAttempt 5, Extracted (Scroll 5) []],
          scraped_job_count = 0, last_total_jobs_on_page = 0,
          no_new_jobs_consecutive_scrolls = 5\<rparr>,
      StallLimit)"
  by code_simp

lemma fresh_page_run:
  "scrape_linkedin_jobs fresh_page 9 =
     (3, \<lparr>existing_links =
            {''https://www.linkedin.com/jobs/view/data-engineer-4012/'', ''N/A'',
             ''https://www.linkedin.com/jobs/view/data-analyst-4011/''},
          events =
            [HeaderWritten, Extracted (Scroll 0) [analyst_row, intern_row],
             ProgressSaved 1, ScrollAttempt 1, Extracted (Scroll 1) [engineer_row],
             ProgressSaved 1, ScrollAttempt 2, Extracted (Scroll 2) [],
             ProgressSaved 2, ScrollAttempt 3, Extracted (Scroll 3) [],
             ProgressSaved 3, ScrollAttempt 4, Extracted (Scroll 4) [],
             ProgressSaved 4, ScrollAttempt 5, Extracted (Scroll 5) [],
             ProgressSaved 5, ScrollAttempt 6, Extracted (Scroll 6) []],
          scraped_job_count = 3, last_total_jobs_on_page = 4,
          no_new_jobs_consecutive_scrolls = 5\<rparr>,
      StallLimit)"
  by code_simp

lemma resumed_page_run:
  "scrape_linkedin_jobs resumed_page 9 =
     (2, \<lparr>existing_links =
            {''https://www.linkedin.com/jobs/view/data-engineer-4012/'',
             ''https://www.linkedin.com/jobs/view/data-analyst-4011/''},
          events =
            [Extracted ResumeCheck [], ScrollAttempt 4,
             Extracted (Scroll 4) [engineer_row],
             ProgressSaved 4, ScrollAttempt 5,
             Extracted (Scroll 5) [], ProgressSaved 5, ScrollAttempt 6,
             Extracted (Scroll 6) [], ProgressSaved 6, ScrollAttempt 7,
             Extracted (Scroll 7) [], ProgressSaved 7, ScrollAttempt 8,
             Extracted (Scroll 8) [], ProgressSaved 8, ScrollAttempt 9,
             Extracted (Scroll 9) []],
          scraped_job_count = 2, last_total_jobs_on_page = 2,
          no_new_jobs_consecutive_scrolls = 5\<rparr>,
      StallLimit)"
  by code_simp

lemma resumed_idle_page_run:
  "scrape_linkedin_jobs resumed_idle_page 9 =
     (1, \<lparr>existing_links = {''https://www.linkedin.com/jobs/view/data-analyst-4011/''},
          events =
            [Extracted ResumeCheck [], ScrollAttempt 4,
             Extracted (Scroll 4) [], ProgressSaved 4, ScrollAttempt 5,
             Extracted (Scroll 5) [], ProgressSaved 5, ScrollAttempt 6,
             Extracted (Scroll 6) [], ProgressSaved 6, ScrollAttempt 7,
             Extracted (Scroll 7) [], ProgressSaved 7, ScrollAttempt 8,
             Extracted (Scroll 8) []],
          scraped_job_count = 1, last_total_jobs_on_page = 1,
          no_new_jobs_consecutive_scrolls = 5\<rparr>,
      StallLimit)"
  by code_simp

lemma crashing_page_run:
  "scrape_linkedin_jobs crashing_page 9 =
     (0, \<lparr>existing_links = {''https://www.linkedin.com/jobs/view/data-analyst-4011/''},
          events = [HeaderWritten, Extracted (Scroll 0) [analyst_row]],
          scraped_job_count = 0, last_total_jobs_on_page = 0,
          no_new_jobs_consecutive_scrolls = 0\<rparr>,
      Crashed)"
  by code_simp

lemma foreign_page_run:
  "scrape_linkedin_jobs foreign_page 9 =
     (1, \<lparr>existing_links = {''https://www.linkedin.com/jobs/view/data-engineer-4012/''},
          events =
            [Extracted (Scroll 0) [engineer_row], ProgressSaved 1,
             ScrollAttempt 1, Extracted (Scroll 1) [], ProgressSaved 1,
             ScrollAttempt 2, Extracted (Scroll 2) [], ProgressSaved 2,
             ScrollAttempt 3, Extracted (Scroll 3) [], ProgressSaved 3,
             ScrollAttempt 4, Extracted (Scroll 4) [], ProgressSaved 4,
             ScrollAttempt 5, Extracted (Scroll 5) []],
          scraped_job_count = 1, last_total_jobs_on_page = 1,
          no_new_jobs_consecutive_scrolls = 5\<rparr>,
      StallLimit)"
  by code_simp

lemma stalling_page_run:
  "scrape_linkedin_jobs stalling_page 9 =
     (3, \<lparr>existing_links =
            {''https://www.linkedin.com/jobs/view/data-engineer-4012/'', ''N/A'',
             ''https://www.linkedin.com/jobs/view/data-analyst-4011/''},
          events =
            [HeaderWritten, Extracted (Scroll 0) [analyst_row, intern_row],
             ProgressSaved 1, ScrollAttempt 1, Extracted (Scroll 1) [engineer_row],
             ProgressSaved 1, ScrollAttempt 2, Extracted (Scroll 2) [],
             ProgressSaved 2, ScrollAttempt 3, Extracted (Scroll 3) [],
             ProgressSaved 3, ScrollAttempt 4, Extracted (Scroll 4) [],
             ProgressSaved 4, ScrollAttempt 5, Extracted (Scroll 5) [],
             ProgressSaved 5, ScrollAttempt 6, Extracted (Scroll 6) []],
          scraped_job_count = 3, last_total_jobs_on_page = 2,
          no_new_jobs_consecutive_scrolls = 5\<rparr>,
      StallLimit)"
  by code_simp

lemma rows_written_examples:
  "rows_written (events (fst (snd (scrape_linkedin_jobs fresh_page 9)))) =
     [analyst_row, intern_row, engineer_row]"
  "rows_written (events (fst (snd (scrape_linkedin_jobs resumed_page 9)))) = [engineer_row]"
  "rows_written (events (fst (snd (scrape_linkedin_jobs resumed_idle_page 9)))) = []"
  "rows_written (events (fst (snd (scrape_linkedin_jobs crashing_page 9)))) = [analyst_row]"
  "rows_written (events (fst (snd (scrape_linkedin_jobs foreign_page 9)))) = [engineer_row]"
  by (simp_all add: fresh_page_run resumed_page_run resumed_idle_page_run crashing_page_run
      foreign_page_run)

theorem dedup_invariant_witness:
  "map (\<lambda>r. normalize_linkedin_job_url (link_of r))
     (rows_written (events (fst (snd (scrape_linkedin_jobs fresh_page 9))))) =
     [''https://www.linkedin.com/jobs/view/data-analyst-4011/'', ''N/A'',
      ''https://www.linkedin.com/jobs/view/data-engineer-4012/''] \<and>
   distinct (map (\<lambda>r. normalize_linkedin_job_url (link_of r))
     (rows_written (events (fst (snd (scrape_linkedin_jobs fresh_page 9))))))"
  using dedup_invariant [OF fresh_page_run]
  by (simp add: fresh_page_run) code_simp

text \<open>
  C3, on the code. A fresh start on a page whose results list stays empty: the five turns
  1 to 5 make no progress, the loop stops at turn 5 on the stall limit, and the progress
  file holds 4, the number of the turn before: line 370 leaves the loop before line 375
  saves the turn's number.
\<close>

theorem checkpoint_missing_at_stall:
  "snd (snd (scrape_linkedin_jobs quiet_page 9)) = StallLimit \<and>
   scroll_attempts (events (fst (snd (scrape_linkedin_jobs quiet_page 9)))) = [1, 2, 3, 4, 5] \<and>
   saved_progress (events (fst (snd (scrape_linkedin_jobs quiet_page 9)))) = Some 4"
  by (simp add: quiet_page_run)

text \<open>
  C5, on the code. A resumed run on a store of one record that finds nothing new returns
  1, though it wrote no row: line 312 starts the counter at the number of links loaded.
  A fresh start in which the date parser overflows on the second card returns 0, though
  the row of the first card was written: the exception leaves the counter as it was
  before the call.
\<close>

theorem returned_count_off:
  "fst (scrape_linkedin_jobs resumed_idle_page 9) = 1 \<and>
   length (rows_written (events (fst (snd (scrape_linkedin_jobs resumed_idle_page 9))))) = 0 \<and>
   fst (scrape_linkedin_jobs crashing_page 9) = 0 \<and>
   length (rows_written (events (fst (snd (scrape_linkedin_jobs crashing_page 9))))) = 1"
  by (simp add: rows_written_examples) (simp add: resumed_idle_page_run crashing_page_run)

text \<open>
  C8, on the code. In the fresh start on \<open>fresh_page\<close> the value 1 is saved to the
  progress file right after the header and the two rows of the first batch were handed
  to the CSV writer; they are far less than a buffer, so at that moment none of them is
  in the CSV file.
\<close>

theorem checkpoint_before_rows_in_file:
  "events (fst (snd (scrape_linkedin_jobs fresh_page 9))) =
     [HeaderWritten, Extracted (Scroll 0) [analyst_row, intern_row]] @ ProgressSaved 1 #
     [ScrollAttempt 1, Extracted (Scroll 1) [engineer_row],
      ProgressSaved 1, ScrollAttempt 2, Extracted (Scroll 2) [],
      ProgressSaved 2, ScrollAttempt 3, Extracted (Scroll 3) [],
      ProgressSaved 3, ScrollAttempt 4, Extracted (Scroll 4) [],
      ProgressSaved 4, ScrollAttempt 5, Extracted (Scroll 5) [],
      ProgressSaved 5, ScrollAttempt 6, Extracted (Scroll 6) []] \<and>
   rows_written [HeaderWritten, Extracted (Scroll 0) [analyst_row, intern_row]] =
     [analyst_row, intern_row] \<and>
   rows_in_file [HeaderWritten, Extracted (Scroll 0) [analyst_row, intern_row]] = Some []"
  by (simp add: fresh_page_run) code_simp

section \<open>The store: loading, reloading, cards without a link\<close>







lemma read_links_stops:
  "read_links i (map Row rows @ ReadFailure # evs) acc = read_links i (map Row rows) acc"
  by (induction rows arbitrary: acc) simp_all

text \<open>
  C9, as amended. Loading the seen links never fails: a file that does not exist gives
  the empty set, a file whose reading fails at once gives the empty set, and a failure
  further on gives the links read before it.
\<close>

theorem loading_never_fails:
  "get_existing_job_links f \<noteq> Inl e \<and>
   get_existing_job_links Absent = Inr {} \<and>
   get_existing_job_links (Present (ReadFailure # evs)) = Inr {} \<and>
   get_existing_job_links (Present (Row header # map Row rows @ ReadFailure # evs)) =
     get_existing_job_links (Present (Row header # map Row rows))"
proof -
  have "get_existing_job_links f \<noteq> Inl e"
    by (simp add: loading_total)
  moreover have "get_existing_job_links Absent = Inr {}"
    by (simp add: get_existing_job_links_def)
  moreover have "get_existing_job_links (Present (ReadFailure # evs)) = Inr {}"
    by (simp add: get_existing_job_links_def)
  moreover have "get_existing_job_links (Present (Row header # map Row rows @ ReadFailure # evs)) =
     get_existing_job_links (Present (Row header # map Row rows))"
    by (simp add: get_existing_job_links_def read_links_stops split: option.splits)
  ultimately show ?thesis by simp
qed

theorem loading_never_fails_witness:
  "get_existing_job_links (Present [Row headers,
      Row [''t'', ''c'', ''l'', ''https://www.linkedin.com/jobs/view/77/?trk=a'', ''d''],
      ReadFailure, Row [''t'', ''c'', ''l'', ''https://www.linkedin.com/jobs/view/78/'', ''d'']])
   = Inr {''https://www.linkedin.com/jobs/view/77/''}"
  using loading_never_fails [of "Present []" StoreUnreadable
      "[Row [''t'', ''c'', ''l'', ''https://www.linkedin.com/jobs/view/78/'', ''d'']]" headers
      "[[''t'', ''c'', ''l'', ''https://www.linkedin.com/jobs/view/77/?trk=a'', ''d'']]"]
  by simp code_simp

theorem loading_unreadable_counterexample:
  "get_existing_job_links (Present [ReadFailure]) = Inr {} \<and>
   get_existing_job_links (Present [ReadFailure]) \<noteq> Inl StoreUnreadable"
  by (simp add: get_existing_job_links_def)

lemma empty_link_normal: "normalize_linkedin_job_url [] = []"
  by (simp add: normalize_linkedin_job_url_def view_marker_def)

text \<open>
  C4, as amended. A candidate without a usable link, one whose link is empty, is skipped
  (lines 198-199): the loop goes on as if the card were not there, whatever the seen
  links hold, and no run writes a row with an empty link.
\<close>

theorem linkless_skipped:
  assumes "scrape_linkedin_jobs env m = (ret, st, why)"
  shows "[] \<notin> set (map link_of (rows_written (events st))) \<and>
         (card_href c = Some [] \<longrightarrow> normalize_linkedin_job_url (job_link c) = []) \<and>
         (normalize_linkedin_job_url (job_link c) = [] \<and> \<not> date_raises c \<longrightarrow>
            save_new_jobs (c # cs) existing counter = save_new_jobs cs existing counter)"
proof -
  have rows: "[] \<notin> set (map link_of (rows_written (events st)))"
  proof (cases "driver_starts env")
    case False
    from scrape_not_started [OF False assms] show ?thesis by simp
  next
    case True
    from run_invariants [OF True assms] have "well_kept st" by simp
    then show ?thesis
      by (auto simp: well_kept_def list_all_iff)
  qed
  have "card_href c = Some [] \<longrightarrow> normalize_linkedin_job_url (job_link c) = []"
    by (simp add: job_link_def empty_link_normal)
  moreover have "normalize_linkedin_job_url (job_link c) = [] \<and> \<not> date_raises c \<longrightarrow>
      save_new_jobs (c # cs) existing counter = save_new_jobs cs existing counter"
    by (simp add: Let_def)
  ultimately show ?thesis using rows by simp
qed

theorem linkless_skipped_witness:
  "save_new_jobs [empty_link_card, analyst_card] {} 0 = save_new_jobs [analyst_card] {} 0 \<and>
   fst (save_new_jobs [empty_link_card, analyst_card] {} 0) = [analyst_row]"
  using linkless_skipped [OF fresh_page_run, of empty_link_card "[analyst_card]" "{}" 0]
  by (simp add: empty_link_card_def date_raises_def) code_simp

theorem linkless_counterexample:
  "card_href empty_link_card = Some [] \<and>
   fst (extract_and_save_jobs (JobList [empty_link_card]) {} 0) = [] \<and>
   card_href linkless_card = None \<and>
   fst (extract_and_save_jobs (JobList [linkless_card, linkless_card]) {} 0) = [intern_row]"
  by code_simp

section \<open>Stalling\<close>

lemma quiet_view_extract:
  "quiet_view view seen \<Longrightarrow>
     extract_and_save_jobs view seen k = ([], seen, Some (k, view_count view))"
  using extract_counter [of view seen 0 "[]" seen "Some (0, view_count view)" k]
  by (simp add: quiet_view_def)

lemma scroll_body_rule:
  assumes "scroll_body n clicked view st = (st', out)"
    and "extract_and_save_jobs view (existing_links st) (scraped_job_count st) =
           (rows, ex', Some (k', found))"
  shows "no_new_jobs_consecutive_scrolls st' =
           (if found \<le> last_total_jobs_on_page st \<and> rows = [] \<and> \<not> clicked
            then no_new_jobs_consecutive_scrolls st + 1 else 0) \<and>
         out = (if 5 \<le> no_new_jobs_consecutive_scrolls st' then Some StallLimit else None) \<and>
         (out = None \<longrightarrow> last_total_jobs_on_page st' = found) \<and>
         existing_links st' = ex' \<and> scraped_job_count st' = k'"
proof -
  have k': "k' = scraped_job_count st + length rows"
    using extract_props [OF assms(2)] by simp
  from assms(1) obtain rows2 ex2 res2 where
    e2: "extract_and_save_jobs view (existing_links st) (scraped_job_count st) = (rows2, ex2, res2)"
    and x: "existing_links st' = ex2"
    and ret: "\<And>k2 t2. res2 = Some (k2, t2) \<Longrightarrow>
       scraped_job_count st' = k2 \<and>
       no_new_jobs_consecutive_scrolls st' =
         (if t2 > last_total_jobs_on_page st \<or> k2 > scraped_job_count st \<or> clicked then 0
          else no_new_jobs_consecutive_scrolls st + 1) \<and>
       out = (if 5 \<le> no_new_jobs_consecutive_scrolls st' then Some StallLimit else None) \<and>
       (out = None \<longrightarrow> last_total_jobs_on_page st' = t2)"
    by (rule scroll_body_char) blast
  from e2 assms(2) have r: "res2 = Some (k', found)" and "ex2 = ex'" by simp_all
  from ret [OF r] x \<open>ex2 = ex'\<close> k' show ?thesis by auto
qed

lemma stall_counter_at_limit:
  "scroll_loop src ns st = (st', StallLimit) \<Longrightarrow> 5 \<le> no_new_jobs_consecutive_scrolls st'"
proof (induction ns arbitrary: st)
  case Nil
  then show ?case by simp
next
  case (Cons n ns)
  define st1 where "st1 = st\<lparr>events := events st @ [ScrollAttempt n]\<rparr>"
  show ?case
  proof (cases "src n")
    case Crash
    then show ?thesis using Cons.prems by (simp add: Let_def)
  next
    case (Observed clicked view)
    obtain st2 out where b: "scroll_body n clicked view st1 = (st2, out)"
      by (cases "scroll_body n clicked view st1") auto
    from b obtain rows ex' res where
      crash: "res = None \<Longrightarrow> out = Some Crashed \<and> scraped_job_count st2 = scraped_job_count st1"
      and ret: "\<And>k' found. res = Some (k', found) \<Longrightarrow>
         scraped_job_count st2 = k' \<and>
         no_new_jobs_consecutive_scrolls st2 =
           (if found > last_total_jobs_on_page st1 \<or> k' > scraped_job_count st1 \<or> clicked then 0
            else no_new_jobs_consecutive_scrolls st1 + 1) \<and>
         out = (if 5 \<le> no_new_jobs_consecutive_scrolls st2 then Some StallLimit else None) \<and>
         (out = None \<longrightarrow> last_total_jobs_on_page st2 = found)"
      by (rule scroll_body_char) blast
    show ?thesis
    proof (cases out)
      case (Some reason)
      then have "st' = st2" "reason = StallLimit"
        using Cons.prems Observed b by (simp_all add: st1_def Let_def)
      with crash ret Some show ?thesis
        by (cases res) (auto split: if_splits)
    next
      case None
      then have "scroll_loop src ns st2 = (st', StallLimit)"
        using Cons.prems Observed b by (simp add: st1_def Let_def)
      then show ?thesis by (rule Cons.IH)
    qed
  qed
qed

text \<open>Quiet turns drive the counter to the limit.\<close>

lemma quiet_run:
  assumes "quiet_turns src (take d ns) (existing_links s) (last_total_jobs_on_page s)"
    and "no_new_jobs_consecutive_scrolls s + d = 5" and "0 < d" and "d \<le> length ns"
  shows "\<exists>s'. scroll_loop src ns s = (s', StallLimit) \<and>
           scroll_attempts (events s') = scroll_attempts (events s) @ take d ns"
  using assms
proof (induction ns arbitrary: s d)
  case Nil
  then show ?case by simp
next
  case (Cons n ns)
  from Cons.prems(3) obtain d' where d: "d = Suc d'" by (cases d) auto
  define s1 where "s1 = s\<lparr>events := events s @ [ScrollAttempt n]\<rparr>"
  have qt: "quiet_turns src (n # take d' ns) (existing_links s) (last_total_jobs_on_page s)"
    using Cons.prems(1) d by simp
  then obtain v where src: "src n = Observed False v"
    and q: "quiet_view v (existing_links s)"
    and le: "view_count v \<le> last_total_jobs_on_page s"
    and rest: "quiet_turns src (take d' ns) (existing_links s) (view_count v)"
    by (cases "src n") auto
  have e1: "extract_and_save_jobs v (existing_links s1) (scraped_job_count s1) =
      ([], existing_links s, Some (scraped_job_count s, view_count v))"
    using quiet_view_extract [OF q] by (simp add: s1_def)
  obtain s2 out where b: "scroll_body n False v s1 = (s2, out)"
    by (cases "scroll_body n False v s1") auto
  from scroll_body_rule [OF b e1] le
  have nn: "no_new_jobs_consecutive_scrolls s2 = no_new_jobs_consecutive_scrolls s + 1"
    and out: "out = (if 5 \<le> no_new_jobs_consecutive_scrolls s + 1 then Some StallLimit else None)"
    and lt: "out = None \<longrightarrow> last_total_jobs_on_page s2 = view_count v"
    and x: "existing_links s2 = existing_links s"
    by (simp_all add: s1_def)
  from b obtain rows ex' res where
    "extract_and_save_jobs v (existing_links s1) (scraped_job_count s1) = (rows, ex', res)"
    and ev: "events s2 = events s1 @ Extracted (Scroll n) rows #
        (if out = None then [ProgressSaved n] else [])"
    by (rule scroll_body_char)
  have att: "scroll_attempts (events s2) = scroll_attempts (events s) @ [n]"
    unfolding ev by (simp add: s1_def scroll_attempts_append)
  show ?case
  proof (cases "d' = 0")
    case True
    with Cons.prems(2) d out have "out = Some StallLimit" by simp
    then have "scroll_loop src (n # ns) s = (s2, StallLimit)"
      using src b by (simp add: s1_def Let_def)
    then show ?thesis using att d True by simp
  next
    case False
    with Cons.prems(2) d out have o: "out = None" by simp
    have loop: "scroll_loop src (n # ns) s = scroll_loop src ns s2"
      using src b o by (simp add: s1_def Let_def)
    have "\<exists>s'. scroll_loop src ns s2 = (s', StallLimit) \<and>
           scroll_attempts (events s') = scroll_attempts (events s2) @ take d' ns"
    proof (rule Cons.IH)
      show "quiet_turns src (take d' ns) (existing_links s2) (last_total_jobs_on_page s2)"
        using rest x lt o by simp
      show "no_new_jobs_consecutive_scrolls s2 + d' = 5"
        using nn Cons.prems(2) d by simp
      show "0 < d'" using False by simp
      show "d' \<le> length ns" using Cons.prems(4) d by simp
    qed
    then show ?thesis
      unfolding loop att using d by simp
  qed
qed

lemma take_upto:
  assumes "a \<le> b" and "b \<le> m"
  shows "take (nat (b - a + 1)) [a..m] = [a..b]"
proof -
  from assms have "[a..m] = [a..b] @ [b + 1..m]" by (rule upto_split2)
  moreover have "length [a..b] = nat (b - a + 1)" by simp
  ultimately show ?thesis by simp
qed

lemma five_turns:
  assumes "a + 4 \<le> m"
  shows "take 5 [a..m] = [a..a + 4]" and "5 \<le> length [a..m]"
  using take_upto [of a "a + 4" m] assms by simp_all

text \<open>Five quiet turns behind a turn that made progress end the loop.\<close>

lemma stall_after_progress:
  assumes "scroll_loop src [a..m] s = (s', why)"
    and "a + 5 \<le> m" and "src a = Observed c0 v0"
    and "scroll_body a c0 v0 (s\<lparr>events := events s @ [ScrollAttempt a]\<rparr>) = (p, None)"
    and "no_new_jobs_consecutive_scrolls p = 0"
    and "quiet_turns src [a + 1..a + 5] (existing_links p) (view_count v0)"
  shows "why = StallLimit \<and>
         scroll_attempts (events s') = scroll_attempts (events s) @ [a..a + 5]"
proof -
  define s1 where "s1 = s\<lparr>events := events s @ [ScrollAttempt a]\<rparr>"
  define out :: "stop_reason option" where "out = None"
  have b: "scroll_body a c0 v0 s1 = (p, out)"
    using assms(4) by (simp add: s1_def out_def)
  have am: "[a..m] = a # [a + 1..m]"
    using assms(2) by (simp add: upto_rec1)
  have loop: "scroll_loop src [a..m] s = scroll_loop src [a + 1..m] p"
    unfolding am using assms(3,4) by (simp add: Let_def)
  from b obtain rows ex' res where
    e: "extract_and_save_jobs v0 (existing_links s1) (scraped_job_count s1) = (rows, ex', res)"
    and ev: "events p = events s1 @ Extracted (Scroll a) rows #
        (if out = None then [ProgressSaved a] else [])"
    and crash: "res = None \<Longrightarrow> out = Some Crashed \<and> scraped_job_count p = scraped_job_count s1"
    and ret: "\<And>k' found. res = Some (k', found) \<Longrightarrow>
       scraped_job_count p = k' \<and>
       no_new_jobs_consecutive_scrolls p =
         (if found > last_total_jobs_on_page s1 \<or> k' > scraped_job_count s1 \<or> c0 then 0
          else no_new_jobs_consecutive_scrolls s1 + 1) \<and>
       out = (if 5 \<le> no_new_jobs_consecutive_scrolls p then Some StallLimit else None) \<and>
       (out = None \<longrightarrow> last_total_jobs_on_page p = found)"
    by (rule scroll_body_char) blast
  from crash obtain k' found where r: "res = Some (k', found)"
    by (cases res) (auto simp: out_def)
  have "found = view_count v0"
    using extract_props [OF e] r by simp
  with ret [OF r] have lt: "last_total_jobs_on_page p = view_count v0"
    by (simp add: out_def)
  have att: "scroll_attempts (events p) = scroll_attempts (events s) @ [a]"
    unfolding ev by (simp add: s1_def out_def scroll_attempts_append)
  have am5: "a + 1 + 4 \<le> m" using assms(2) by simp
  have five: "take 5 [a + 1..m] = [a + 1..a + 5]"
    using five_turns(1) [OF am5] by (simp add: ac_simps)
  have "\<exists>s2. scroll_loop src [a + 1..m] p = (s2, StallLimit) \<and>
         scroll_attempts (events s2) = scroll_attempts (events p) @ take 5 [a + 1..m]"
  proof (rule quiet_run)
    show "quiet_turns src (take 5 [a + 1..m]) (existing_links p) (last_total_jobs_on_page p)"
      unfolding five lt by (rule assms(6))
    show "no_new_jobs_consecutive_scrolls p + 5 = 5" using assms(5) by simp
    show "(0::nat) < 5" by simp
    show "5 \<le> length [a + 1..m]" by (rule five_turns(2) [OF am5])
  qed
  then obtain s2 where
    l2: "scroll_loop src [a + 1..m] p = (s2, StallLimit)"
    and a2: "scroll_attempts (events s2) = scroll_attempts (events p) @ [a + 1..a + 5]"
    unfolding five by blast
  from assms(1) loop l2 have "s' = s2" "why = StallLimit" by simp_all
  moreover have "[a..a + 5] = a # [a + 1..a + 5]" by (simp add: upto_rec1)
  ultimately show ?thesis using a2 att by simp
qed

text \<open>Five quiet turns behind the extraction before the loop end the run.\<close>

lemma stall_after_first_extraction:
  assumes "scrape_linkedin_jobs env m = (ret, st, why)"
    and "driver_starts env" and "page_ready env" and "\<not> first_extraction_raises env"
    and "load_progress (progress_store env) + 5 \<le> m"
    and "quiet_turns (scroll_view env)
           [load_progress (progress_store env) + 1..load_progress (progress_store env) + 5]
           (fst (snd (extract_and_save_jobs (first_view env) (seen_at_start (csv_store env)) 0)))
           (view_count (first_view env))"
  shows "why = StallLimit \<and>
         scroll_attempts (events st) =
           [load_progress (progress_store env) + 1..load_progress (progress_store env) + 5]"
proof -
  let ?k = "load_progress (progress_store env)"
  from assms(2,3,1) obtain st0 st1 returned where
    x0: "existing_links st0 = seen_at_start (csv_store env)"
    and e0: "events st0 = header_events env"
    and c0: "scraped_job_count st0 = 0"
    and b: "before_loop env st0 = (st1, returned)"
    and go: "returned \<Longrightarrow>
       scroll_loop (scroll_view env) [?k + 1..m] st1 = (st, why) \<and> ret = scraped_job_count st"
    and n0: "no_new_jobs_consecutive_scrolls st0 = 0"
    by (rule scrape_reaches_loop) blast
  from b x0 c0 obtain rows ex' res where
    e: "extract_and_save_jobs (first_view env) (seen_at_start (csv_store env))
         (if ?k = 0 then 0 else card (seen_at_start (csv_store env))) = (rows, ex', res)"
    and x: "existing_links st1 = ex'"
    and r: "returned = (\<not> first_extraction_raises env)"
    and ev: "events st1 = events st0 @
       (if returned then first_events env rows
        else [Extracted (if ?k = 0 then Scroll 0 else ResumeCheck) rows])"
    and lt: "returned \<Longrightarrow> last_total_jobs_on_page st1 = view_count (first_view env)"
    and nn: "no_new_jobs_consecutive_scrolls st1 = no_new_jobs_consecutive_scrolls st0"
    by (rule before_loop_char) blast
  from r assms(4) have ret: returned by simp
  from go [OF ret] have l: "scroll_loop (scroll_view env) [?k + 1..m] st1 = (st, why)" by simp
  have links: "fst (snd (extract_and_save_jobs (first_view env)
      (seen_at_start (csv_store env)) 0)) = existing_links st1"
    using extract_counter [OF e, of 0] x by simp
  have att: "scroll_attempts (events st1) = []"
    unfolding ev e0 using ret by (simp add: scroll_attempts_append rows_before_loop)
  have km: "?k + 1 + 4 \<le> m" using assms(5) by simp
  have five: "take 5 [?k + 1..m] = [?k + 1..?k + 5]"
    using five_turns(1) [OF km] by (simp add: ac_simps)
  have "\<exists>s2. scroll_loop (scroll_view env) [?k + 1..m] st1 = (s2, StallLimit) \<and>
         scroll_attempts (events s2) = scroll_attempts (events st1) @ take 5 [?k + 1..m]"
  proof (rule quiet_run)
    show "quiet_turns (scroll_view env) (take 5 [?k + 1..m]) (existing_links st1)
        (last_total_jobs_on_page st1)"
      unfolding five lt [OF ret] links [symmetric] by (rule assms(6))
    show "no_new_jobs_consecutive_scrolls st1 + 5 = 5" using nn n0 by simp
    show "(0::nat) < 5" by simp
    show "5 \<le> length [?k + 1..m]" by (rule five_turns(2) [OF km])
  qed
  with l att five show ?thesis by auto
qed

lemma before_loop_total:
  assumes "before_loop env st0 = (entry, returned)"
  shows "returned \<longrightarrow> last_total_jobs_on_page entry = view_count (first_view env)"
proof (cases "load_progress (progress_store env) + 1 = 1")
  case True
  obtain rows ex' res where
    e: "extract_and_save_jobs (first_view env) (existing_links st0) 0 = (rows, ex', res)"
    by (metis prod_cases3)
  from assms True e extract_props [OF e] show ?thesis
    by (cases res) (auto simp: before_loop_def save_progress_def)
next
  case False
  obtain rows ex' res where
    e: "extract_and_save_jobs (first_view env) (existing_links st0)
         (card (existing_links st0)) = (rows, ex', res)"
    by (metis prod_cases3)
  from assms False e extract_props [OF e] show ?thesis
    by (cases res) (auto simp: before_loop_def save_progress_def)
qed

text \<open>
  C2. In one turn whose extraction returns, the stall counter goes up by one exactly
  when the number of cards found is not above the number held from the step before, no
  row was written and the button was not clicked, and is set to 0 otherwise; the loop is
  left at once when the counter has reached 5. The number held is the count of the step
  before: a turn that does not leave the loop stores its own count, so that the next turn
  is judged against it, and the extraction before the loop stores its count. The loop
  never runs a turn beyond \<open>max_scroll_attempts\<close>, it runs them all when it ends for lack
  of turns, and it ends on the stall limit only with the counter at 5 or more. Five turns
  on which nothing moves, behind a turn that made progress or behind the extraction
  before the loop, end the loop on the stall limit at the fifth of them.
\<close>

theorem stall_termination:
  assumes "scroll_body n clicked view st = (st1, out)"
    and "extract_and_save_jobs view (existing_links st) (scraped_job_count st) =
           (rows, ex1, Some (k1, found))"
    and "scroll_body n2 clicked2 view2 (st1\<lparr>events := events st1 @ [ScrollAttempt n2]\<rparr>) =
           (st2, out2)"
    and "extract_and_save_jobs view2 (existing_links st1) (scraped_job_count st1) =
           (rows2, ex2, Some (k2, found2))"
    and "before_loop env st0 = (entry, returned)"
    and "scroll_loop src [a..m] s = (s', why)"
    and "scrape_linkedin_jobs env mx = (ret, end_st, end_why)"
  shows "no_new_jobs_consecutive_scrolls st1 =
           (if found \<le> last_total_jobs_on_page st \<and> rows = [] \<and> \<not> clicked
            then no_new_jobs_consecutive_scrolls st + 1 else 0) \<and>
         out = (if 5 \<le> no_new_jobs_consecutive_scrolls st1 then Some StallLimit else None) \<and>
         (out = None \<longrightarrow>
            last_total_jobs_on_page st1 = found \<and>
            no_new_jobs_consecutive_scrolls st2 =
              (if found2 \<le> found \<and> rows2 = [] \<and> \<not> clicked2
               then no_new_jobs_consecutive_scrolls st1 + 1 else 0)) \<and>
         (returned \<longrightarrow> last_total_jobs_on_page entry = view_count (first_view env)) \<and>
         (\<exists>turns. scroll_attempts (events s') = scroll_attempts (events s) @ turns \<and>
            prefix turns [a..m] \<and> (why = AttemptsExhausted \<longrightarrow> turns = [a..m])) \<and>
         (why = StallLimit \<longrightarrow> 5 \<le> no_new_jobs_consecutive_scrolls s') \<and>
         (a + 5 \<le> m \<and> src a = Observed c0 v0 \<and>
          scroll_body a c0 v0 (s\<lparr>events := events s @ [ScrollAttempt a]\<rparr>) = (p, None) \<and>
          no_new_jobs_consecutive_scrolls p = 0 \<and>
          quiet_turns src [a + 1..a + 5] (existing_links p) (view_count v0) \<longrightarrow>
            why = StallLimit \<and>
            scroll_attempts (events s') = scroll_attempts (events s) @ [a..a + 5]) \<and>
         (driver_starts env \<and> page_ready env \<and> \<not> first_extraction_raises env \<and>
          load_progress (progress_store env) + 5 \<le> mx \<and>
          quiet_turns (scroll_view env)
            [load_progress (progress_store env) + 1..load_progress (progress_store env) + 5]
            (fst (snd (extract_and_save_jobs (first_view env) (seen_at_start (csv_store env)) 0)))
            (view_count (first_view env)) \<longrightarrow>
            end_why = StallLimit \<and>
            scroll_attempts (events end_st) =
              [load_progress (progress_store env) + 1..load_progress (progress_store env) + 5])"
proof -
  note rule1 = scroll_body_rule [OF assms(1,2)]
  have e2: "extract_and_save_jobs view2
      (existing_links (st1\<lparr>events := events st1 @ [ScrollAttempt n2]\<rparr>))
      (scraped_job_count (st1\<lparr>events := events st1 @ [ScrollAttempt n2]\<rparr>)) =
      (rows2, ex2, Some (k2, found2))"
    using assms(4) by simp
  note rule2 = scroll_body_rule [OF assms(3) e2]
  have step: "no_new_jobs_consecutive_scrolls st1 =
           (if found \<le> last_total_jobs_on_page st \<and> rows = [] \<and> \<not> clicked
            then no_new_jobs_consecutive_scrolls st + 1 else 0)"
    and brk: "out = (if 5 \<le> no_new_jobs_consecutive_scrolls st1 then Some StallLimit else None)"
    and held: "out = None \<longrightarrow> last_total_jobs_on_page st1 = found"
    using rule1 by simp_all
  have "next": "out = None \<longrightarrow> no_new_jobs_consecutive_scrolls st2 =
              (if found2 \<le> found \<and> rows2 = [] \<and> \<not> clicked2
               then no_new_jobs_consecutive_scrolls st1 + 1 else 0)"
    using rule2 held by simp
  note first = before_loop_total [OF assms(5)]
  from scroll_loop_events [OF assms(6)] obtain rest where
    r: "events s' = events s @ rest" "prefix (scroll_attempts rest) [a..m]"
       "why = AttemptsExhausted \<longrightarrow> scroll_attempts rest = [a..m]"
    by blast
  have turns: "\<exists>turns. scroll_attempts (events s') = scroll_attempts (events s) @ turns \<and>
            prefix turns [a..m] \<and> (why = AttemptsExhausted \<longrightarrow> turns = [a..m])"
    using r by (auto simp: scroll_attempts_append)
  have limit: "why = StallLimit \<longrightarrow> 5 \<le> no_new_jobs_consecutive_scrolls s'"
    using stall_counter_at_limit assms(6) by blast
  have quiet: "a + 5 \<le> m \<and> src a = Observed c0 v0 \<and>
          scroll_body a c0 v0 (s\<lparr>events := events s @ [ScrollAttempt a]\<rparr>) = (p, None) \<and>
          no_new_jobs_consecutive_scrolls p = 0 \<and>
          quiet_turns src [a + 1..a + 5] (existing_links p) (view_count v0) \<longrightarrow>
            why = StallLimit \<and>
            scroll_attempts (events s') = scroll_attempts (events s) @ [a..a + 5]"
    using stall_after_progress [OF assms(6)] by blast
  have run: "driver_starts env \<and> page_ready env \<and> \<not> first_extraction_raises env \<and>
          load_progress (progress_store env) + 5 \<le> mx \<and>
          quiet_turns (scroll_view env)
            [load_progress (progress_store env) + 1..load_progress (progress_store env) + 5]
            (fst (snd (extract_and_save_jobs (first_view env) (seen_at_start (csv_store env)) 0)))
            (view_count (first_view env)) \<longrightarrow>
            end_why = StallLimit \<and>
            scroll_attempts (events end_st) =
              [load_progress (progress_store env) + 1..load_progress (progress_store env) + 5]"
    using stall_after_first_extraction [OF assms(7)] by blast
  from step brk held "next" first turns limit quiet run show ?thesis by blast
qed

theorem stall_termination_witness:
  "no_new_jobs_consecutive_scrolls stalling_turn_one = 0 \<and>
   last_total_jobs_on_page stalling_turn_one = 4 \<and>
   no_new_jobs_consecutive_scrolls (fst (scroll_body 2 False four_cards
     (stalling_turn_one\<lparr>events := events stalling_turn_one @ [ScrollAttempt 2]\<rparr>))) = 1 \<and>
   last_total_jobs_on_page (fst (before_loop resumed_idle_page resumed_idle_start)) = 1 \<and>
   snd (scroll_loop (scroll_view stalling_page) [1..9] stalling_entry) = StallLimit \<and>
   scroll_attempts (events (fst (scroll_loop (scroll_view stalling_page) [1..9] stalling_entry))) =
     [1, 2, 3, 4, 5, 6] \<and>
   snd (snd (scrape_linkedin_jobs resumed_idle_page 9)) = StallLimit \<and>
   scroll_attempts (events (fst (snd (scrape_linkedin_jobs resumed_idle_page 9)))) =
     [4, 5, 6, 7, 8]"
proof -
  let ?s1 = "stalling_entry\<lparr>events := events stalling_entry @ [ScrollAttempt 1]\<rparr>"
  let ?s2 = "stalling_turn_one\<lparr>events := events stalling_turn_one @ [ScrollAttempt 2]\<rparr>"
  let ?b2 = "scroll_body 2 False four_cards ?s2"
  let ?bl = "before_loop resumed_idle_page resumed_idle_start"
  let ?lp = "scroll_loop (scroll_view stalling_page) [1..9] stalling_entry"
  let ?rn = "scrape_linkedin_jobs resumed_idle_page 9"
  let ?k = "load_progress (progress_store resumed_idle_page)"
  have b1: "scroll_body 1 True four_cards ?s1 = (stalling_turn_one, None)"
    by code_simp
  have e1: "extract_and_save_jobs four_cards (existing_links ?s1) (scraped_job_count ?s1) =
      ([engineer_row], existing_links stalling_turn_one, Some (3, 4))"
    by code_simp
  have b2: "?b2 = (fst ?b2, snd ?b2)" by simp
  have e2: "extract_and_save_jobs four_cards (existing_links stalling_turn_one)
      (scraped_job_count stalling_turn_one) = ([], existing_links stalling_turn_one, Some (3, 4))"
    by code_simp
  have bl: "?bl = (fst ?bl, snd ?bl)" by simp
  have lp: "?lp = (fst ?lp, snd ?lp)" by simp
  have rn: "?rn = (fst ?rn, fst (snd ?rn), snd (snd ?rn))" by simp
  note t = stall_termination [OF b1 e1 b2 e2 bl lp rn, of True four_cards stalling_turn_one]
  have returned: "snd ?bl" by code_simp
  have g: "(1::int) + 5 \<le> 9" "scroll_view stalling_page 1 = Observed True four_cards"
    "scroll_body 1 True four_cards ?s1 = (stalling_turn_one, None)"
    "no_new_jobs_consecutive_scrolls stalling_turn_one = 0"
    "quiet_turns (scroll_view stalling_page) [1 + 1..1 + 5] (existing_links stalling_turn_one)
       (view_count four_cards)"
    by code_simp+
  have h: "driver_starts resumed_idle_page" "page_ready resumed_idle_page"
    "\<not> first_extraction_raises resumed_idle_page" "?k + 5 \<le> 9"
    "quiet_turns (scroll_view resumed_idle_page) [?k + 1..?k + 5]
       (fst (snd (extract_and_save_jobs (first_view resumed_idle_page)
          (seen_at_start (csv_store resumed_idle_page)) 0)))
       (view_count (first_view resumed_idle_page))"
    by code_simp+
  have u: "[(1::int)..1 + 5] = [1, 2, 3, 4, 5, 6]" "[?k + 1..?k + 5] = [4, 5, 6, 7, 8]"
    "scroll_attempts (events stalling_entry) = []" "view_count (first_view resumed_idle_page) = 1"
    by code_simp+
  from t have "no_new_jobs_consecutive_scrolls (fst ?b2) =
      (if (4::nat) \<le> 4 \<and> ([]::string list list) = [] \<and> \<not> False
       then no_new_jobs_consecutive_scrolls stalling_turn_one + 1 else 0)"
    by blast
  moreover from t returned have "last_total_jobs_on_page (fst ?bl) =
      view_count (first_view resumed_idle_page)"
    by blast
  moreover from t g have "snd ?lp = StallLimit \<and>
      scroll_attempts (events (fst ?lp)) = scroll_attempts (events stalling_entry) @ [1..1 + 5]"
    by blast
  moreover from t h have "snd (snd ?rn) = StallLimit \<and>
      scroll_attempts (events (fst (snd ?rn))) = [?k + 1..?k + 5]"
    by blast
  ultimately show ?thesis
    unfolding u by (simp add: stalling_turn_one_def)
qed

section \<open>Resuming\<close>







end
